theory Spec2Isabelle
  imports Main
begin

section \<open>Python values handled by the library\<close>

text \<open>
  The library is dynamically typed. The values below are the ones its code tells apart
  with \<open>isinstance\<close>, \<open>is None\<close> and truth tests: \<open>None\<close>, \<open>str\<close>, \<open>int\<close>,
  \<open>dict\<close>, \<open>Tag\<close>, \<open>RawString\<close>, \<open>Element\<close> (a subclass of \<open>RawString\<close>),
  \<open>list\<close> and generator objects.

  Attribute values are \<open>None\<close>, a \<open>str\<close> or an \<open>int\<close>: these are the values whose
  \<open>str(value)\<close> is written out below. A \<open>dict\<close> is an association list with distinct
  keys in insertion order, the order in which Python iterates a dict.
\<close>

datatype attr_value = ANone | AStr string | AInt int

type_synonym pydict = "(string \<times> attr_value) list"

text \<open>\<open>Tag.__init__(self, name, **options)\<close>: the options read by the renderer are
  truth values.\<close>

record tag =
  name :: string
  options :: "(string \<times> bool) list"

text \<open>
  A generator object is one-shot and stateful. \<open>PGen g xs e\<close> is the generator object
  with identity \<open>g\<close> that yields the values \<open>xs\<close> one after the other and then returns
  (\<open>e = None\<close>) or raises the exception \<open>e\<close>; \<open>PGenInf g f\<close> is a generator object
  that never returns and yields \<open>f 0\<close>, \<open>f 1\<close>, ... How far a generator object has
  run is kept in the state, under its identity, so the two occurrences of one object share
  their progress.
\<close>

datatype pyval =
    PNone
  | PStr string
  | PInt int
  | PDict pydict
  | PTag tag
  | PRaw "string list"
  | PElem element
  | PList "pyval list"
  | PGen nat "pyval list" "string option"
  | PGenInf nat "nat \<Rightarrow> pyval"
and element =
    Element (tag: tag) (children: "pyval list") (attributes: pydict)

datatype error = TypeError string | UserError string

fun is_dict :: "pyval \<Rightarrow> bool" where
  "is_dict (PDict d) = True"
| "is_dict _ = False"

fun type_name :: "pyval \<Rightarrow> string" where
  "type_name PNone = ''NoneType''"
| "type_name (PStr s) = ''str''"
| "type_name (PInt i) = ''int''"
| "type_name (PDict d) = ''dict''"
| "type_name (PTag t) = ''Tag''"
| "type_name (PRaw fs) = ''RawString''"
| "type_name (PElem e) = ''Element''"
| "type_name (PList xs) = ''list''"
| "type_name (PGen g xs e) = ''generator''"
| "type_name (PGenInf g f) = ''generator''"

text \<open>Python's truth test, as used by \<open>seq or self.children\<close>. \<open>Tag\<close> and
  \<open>RawString\<close> define neither \<open>__bool__\<close> nor \<open>__len__\<close>, and generator objects
  are always true.\<close>

fun truthy :: "pyval \<Rightarrow> bool" where
  "truthy PNone = False"
| "truthy (PStr s) = (s \<noteq> [])"
| "truthy (PInt i) = (i \<noteq> 0)"
| "truthy (PDict d) = (d \<noteq> [])"
| "truthy (PTag t) = True"
| "truthy (PRaw fs) = True"
| "truthy (PElem e) = True"
| "truthy (PList xs) = (xs \<noteq> [])"
| "truthy (PGen g xs e) = True"
| "truthy (PGenInf g f) = True"

section \<open>Strings\<close>

text \<open>\<open>s.replace(c, r)\<close> for a one-character \<open>c\<close>, and \<open>s.strip(c)\<close>.\<close>

definition str_replace :: "char \<Rightarrow> string \<Rightarrow> string \<Rightarrow> string" where
  "str_replace c r s = concat (map (\<lambda>x. if x = c then r else [x]) s)"

definition str_strip :: "char \<Rightarrow> string \<Rightarrow> string" where
  "str_strip c s = rev (dropWhile (\<lambda>x. x = c) (rev (dropWhile (\<lambda>x. x = c) s)))"

text \<open>
  \<open>cgi.escape(s, quote=None)\<close> of the standard library:
  \<^verbatim>\<open>
    s = s.replace("&", "&amp;") # Must be done first!
    s = s.replace("<", "&lt;")
    s = s.replace(">", "&gt;")
    if quote:
        s = s.replace('"', "&quot;")
    return s
  \<close>
\<close>

definition cgi_escape :: "bool \<Rightarrow> string \<Rightarrow> string" where
  "cgi_escape quote s =
     (let s1 = str_replace (CHR ''&'') ''&amp;'' s;
          s2 = str_replace (CHR ''<'') ''&lt;'' s1;
          s3 = str_replace (CHR ''>'') ''&gt;'' s2
      in if quote then str_replace (CHR 0x22) ''&quot;'' s3 else s3)"

text \<open>\<open>str(value)\<close> for the attribute values: decimal digits for an \<open>int\<close>.\<close>

fun digits :: "nat \<Rightarrow> string" where
  "digits n =
     (if n < 10 then [char_of (48 + n)] else digits (n div 10) @ [char_of (48 + n mod 10)])"

declare digits.simps [simp del]

fun py_str :: "attr_value \<Rightarrow> string" where
  "py_str ANone = ''None''"
| "py_str (AStr s) = s"
| "py_str (AInt i) = (if i < 0 then CHR ''-'' # digits (nat (- i)) else digits (nat i))"

section \<open>Dictionaries\<close>

text \<open>\<open>d[k] = v\<close>: an existing key keeps its place and takes the new value, a new key
  goes to the end. \<open>d.update(other)\<close> and \<open>dict(pairs)\<close> store the pairs in order.\<close>

fun dict_setitem :: "string \<Rightarrow> attr_value \<Rightarrow> pydict \<Rightarrow> pydict" where
  "dict_setitem k v [] = [(k, v)]"
| "dict_setitem k v ((k', v') # d) =
     (if k' = k then (k, v) # d else (k', v') # dict_setitem k v d)"

definition dict_update :: "pydict \<Rightarrow> (string \<times> attr_value) list \<Rightarrow> pydict" where
  "dict_update d pairs = foldl (\<lambda>acc (k, v). dict_setitem k v acc) d pairs"

definition dict_of_pairs :: "(string \<times> attr_value) list \<Rightarrow> pydict" where
  "dict_of_pairs pairs = dict_update [] pairs"

section \<open>Element.__init__\<close>

text \<open>\<open>name.strip("_").replace("_", "-")\<close>\<close>

definition attribute_name :: "string \<Rightarrow> string" where
  "attribute_name nm = str_replace (CHR ''_'') ''-'' (str_strip (CHR ''_'') nm)"

text \<open>
  \<^verbatim>\<open>
    for c in children:
        if isinstance(c, dict):
            attributes.update(c)
  \<close>
\<close>

fun merge_dicts :: "pydict \<Rightarrow> pyval list \<Rightarrow> pydict" where
  "merge_dicts attrs [] = attrs"
| "merge_dicts attrs (PDict c # cs) = merge_dicts (dict_update attrs c) cs"
| "merge_dicts attrs (c # cs) = merge_dicts attrs cs"

text \<open>
  \<open>Element(*children, **attributes)\<close>. The positional arguments are \<open>args\<close>, the
  keyword arguments \<open>kwargs\<close> (in the order written). The result is the constructed
  object or the \<open>TypeError\<close> raised.
\<close>

definition Element_init :: "pyval list \<Rightarrow> pydict \<Rightarrow> error + element" where
  "Element_init args kwargs =
     (case filter (\<lambda>c. \<not> is_dict c) args of
        [] \<Rightarrow> Inl (TypeError ''missing tag'')
      | first # rest \<Rightarrow>
          (case first of
             PTag t \<Rightarrow>
               Inr (Element t rest
                      (dict_of_pairs
                         (map (\<lambda>(nm, v). (attribute_name nm, v))
                            (filter (\<lambda>(nm, v). v \<noteq> ANone) (merge_dicts kwargs args)))))
           | _ \<Rightarrow> Inl (TypeError (''expected Tag, but given '' @ type_name first))))"

text \<open>\<open>Tag.__call__(self, *children, **attributes)\<close>\<close>

definition Tag_call :: "tag \<Rightarrow> pyval list \<Rightarrow> pydict \<Rightarrow> error + element" where
  "Tag_call t cs kwargs = Element_init (PTag t # cs) kwargs"

section \<open>Iteration\<close>

text \<open>
  \<open>Element.__iter__\<close> and \<open>flat_children\<close> are generators: they run only when the
  consumer asks for the next fragment, and they stay suspended at a \<open>yield\<close> until it
  asks again. The state holds what a consumer can observe: the fragments it has received,
  how many times each generator object among the children has been resumed, and how many
  more fragments it is going to ask for (\<open>None\<close>: it consumes everything, as
  \<open>"".join\<close> and \<open>list\<close> do).
\<close>

record state =
  gens :: "nat \<Rightarrow> nat"
  out :: "string list"
  wanted :: "nat option"

text \<open>A piece of generator code runs to its end, raises, or is left suspended at a
  \<open>yield\<close> because the consumer stopped asking.\<close>

datatype outcome = Normal | Raised error | Suspended

definition yield :: "string \<Rightarrow> state \<Rightarrow> outcome \<times> state" where
  "yield s st =
     (case wanted st of
        None \<Rightarrow> (Normal, st\<lparr>out := out st @ [s]\<rparr>)
      | Some 0 \<Rightarrow> (Suspended, st)
      | Some (Suc k) \<Rightarrow>
          (if k = 0 then Suspended else Normal, st\<lparr>out := out st @ [s], wanted := Some k\<rparr>))"

fun yield_all :: "string list \<Rightarrow> state \<Rightarrow> outcome \<times> state" where
  "yield_all [] st = (Normal, st)"
| "yield_all (s # ss) st =
     (case yield s st of (Normal, st') \<Rightarrow> yield_all ss st' | r \<Rightarrow> r)"

text \<open>Statement sequencing: the rest runs only after a normal end. The result
  \<open>None\<close> says that the code has not come to a \<open>yield\<close>, an end or an exception within
  the given number of steps.\<close>

definition and_then ::
  "(outcome \<times> state) option \<Rightarrow> (state \<Rightarrow> (outcome \<times> state) option) \<Rightarrow> (outcome \<times> state) option"
where
  "and_then r rest =
     (case r of
        None \<Rightarrow> None
      | Some (Normal, st) \<Rightarrow> rest st
      | Some (oc, st) \<Rightarrow> Some (oc, st))"

text \<open>Iterators over the values that \<open>flat_children\<close> walks through. A list iterator
  holds what is left of the list; a generator object is its own iterator.\<close>

datatype iterator =
    ListIter "pyval list"
  | GenIter nat "pyval list" "string option"
  | GenInfIter nat "nat \<Rightarrow> pyval"

datatype step = Item pyval | StopIteration | Raise error

text \<open>\<open>iter(x)\<close>. \<open>flat_children\<close> never iterates an \<open>Element\<close> (it is a
  \<open>RawString\<close>, hence a leaf); its iterator is \<open>Element_iter\<close> below and has no
  representation here.\<close>

fun py_iter :: "pyval \<Rightarrow> (error + iterator) option" where
  "py_iter PNone = Some (Inl (TypeError '''NoneType' object is not iterable''))"
| "py_iter (PStr s) = Some (Inr (ListIter (map (\<lambda>c. PStr [c]) s)))"
| "py_iter (PInt i) = Some (Inl (TypeError '''int' object is not iterable''))"
| "py_iter (PDict d) = Some (Inr (ListIter (map (\<lambda>(k, v). PStr k) d)))"
| "py_iter (PTag t) = Some (Inl (TypeError '''Tag' object is not iterable''))"
| "py_iter (PRaw fs) = Some (Inr (ListIter (map PStr fs)))"
| "py_iter (PElem e) = None"
| "py_iter (PList xs) = Some (Inr (ListIter xs))"
| "py_iter (PGen g xs e) = Some (Inr (GenIter g xs e))"
| "py_iter (PGenInf g f) = Some (Inr (GenInfIter g f))"

text \<open>\<open>next(it)\<close>. Resuming a generator object runs it to its next \<open>yield\<close>; a
  generator that has returned or raised is exhausted for good.\<close>

fun iter_next :: "iterator \<Rightarrow> state \<Rightarrow> step \<times> iterator \<times> state" where
  "iter_next (ListIter []) st = (StopIteration, ListIter [], st)"
| "iter_next (ListIter (x # xs)) st = (Item x, ListIter xs, st)"
| "iter_next (GenIter g xs e) st =
     (let p = gens st g; st' = st\<lparr>gens := (gens st)(g := Suc p)\<rparr> in
      if p < length xs then (Item (xs ! p), GenIter g xs e, st')
      else if p = length xs then
        (case e of None \<Rightarrow> (StopIteration, GenIter g xs e, st')
                 | Some msg \<Rightarrow> (Raise (UserError msg), GenIter g xs e, st'))
      else (StopIteration, GenIter g xs e, st))"
| "iter_next (GenInfIter g f) st =
     (let p = gens st g in (Item (f p), GenInfIter g f, st\<lparr>gens := (gens st)(g := Suc p)\<rparr>))"

text \<open>\<open>isinstance(child, (str, RawString))\<close> and \<open>child is None\<close>\<close>

fun is_str_or_RawString :: "pyval \<Rightarrow> bool" where
  "is_str_or_RawString (PStr s) = True"
| "is_str_or_RawString (PRaw fs) = True"
| "is_str_or_RawString (PElem e) = True"
| "is_str_or_RawString _ = False"

fun is_None :: "pyval \<Rightarrow> bool" where
  "is_None PNone = True"
| "is_None _ = False"

text \<open>\<open>self.tag.options.get(key, dflt)\<close>\<close>

definition option_get :: "tag \<Rightarrow> string \<Rightarrow> bool \<Rightarrow> bool" where
  "option_get t key dflt = (case map_of (options t) key of None \<Rightarrow> dflt | Some b \<Rightarrow> b)"

text \<open>\<open>' %s="%s"' % (name, cgi.escape(str(value)))\<close>\<close>

definition attribute_fragment :: "string \<times> attr_value \<Rightarrow> string" where
  "attribute_fragment a =
     '' '' @ fst a @ ''='' @ [CHR 0x22] @ cgi_escape False (py_str (snd a)) @ [CHR 0x22]"

text \<open>
  The generators, with \<open>for x in g: body\<close> over a generator \<open>g\<close> read as what it
  does: each \<open>yield\<close> of \<open>g\<close> runs \<open>body\<close> on the yielded value before \<open>g\<close> goes on.
  \<^item> \<open>Element_iter\<close> is \<open>Element.__iter__\<close>;
  \<^item> \<open>flat_children self seq\<close> is the generator \<open>flat_children(self, seq)\<close> and
    \<open>flat_loop\<close> its \<open>for\<close> loop, from the iterator's current position;
  \<open>seq = PNone\<close> is the default argument;
  \<^item> \<open>emit_child\<close> is the body of \<open>for child in self.flat_children:\<close> in
    \<open>__iter__\<close>, run on each leaf that \<open>flat_children\<close> yields.
  The first argument bounds the number of nested calls and loop rounds; the interpreter's
  own recursion limit is not modelled, so code that recurses without end (as
  \<open>flat_children\<close> does on an empty list, which \<open>seq or self.children\<close> replaces
  by \<open>self.children\<close>) has the result \<open>None\<close> for every bound.
\<close>

fun Element_iter :: "nat \<Rightarrow> element \<Rightarrow> state \<Rightarrow> (outcome \<times> state) option"
and flat_children :: "nat \<Rightarrow> element \<Rightarrow> pyval \<Rightarrow> state \<Rightarrow> (outcome \<times> state) option"
and flat_loop :: "nat \<Rightarrow> element \<Rightarrow> iterator \<Rightarrow> state \<Rightarrow> (outcome \<times> state) option"
and emit_child :: "nat \<Rightarrow> element \<Rightarrow> pyval \<Rightarrow> state \<Rightarrow> (outcome \<times> state) option"
where
  "Element_iter 0 self st = None"
| "Element_iter (Suc n) self st =
     and_then (Some (yield (''<'' @ name (tag self)) st)) (\<lambda>st.
     and_then (Some (yield_all (map attribute_fragment (attributes self)) st)) (\<lambda>st.
       if children self \<noteq> [] then
         and_then (Some (yield ''>'' st)) (\<lambda>st.
         and_then (flat_children n self PNone st) (\<lambda>st.
         Some (yield (''</'' @ name (tag self) @ ''>'') st)))
       else if option_get (tag self) ''shorten_empty_tag'' True then
         Some (yield '' />'' st)
       else
         Some (yield (''></'' @ name (tag self) @ ''>'') st)))"
| "flat_children 0 self seq st = None"
| "flat_children (Suc n) self seq st =
     (case py_iter (if truthy seq then seq else PList (children self)) of
        None \<Rightarrow> None
      | Some (Inl e) \<Rightarrow> Some (Raised e, st)
      | Some (Inr it) \<Rightarrow> flat_loop n self it st)"
| "flat_loop 0 self it st = None"
| "flat_loop (Suc n) self it st =
     (case iter_next it st of
        (StopIteration, it', st') \<Rightarrow> Some (Normal, st')
      | (Raise e, it', st') \<Rightarrow> Some (Raised e, st')
      | (Item child, it', st') \<Rightarrow>
          if is_str_or_RawString child then
            and_then (emit_child n self child st') (\<lambda>st. flat_loop n self it' st)
          else if \<not> is_None child then
            and_then (flat_children n self child st') (\<lambda>st. flat_loop n self it' st)
          else flat_loop n self it' st')"
| "emit_child 0 self child st = None"
| "emit_child (Suc n) self child st =
     (case child of
        PStr s \<Rightarrow>
          if option_get (tag self) ''cdata_section'' False then
            and_then (Some (yield ''<![CDATA['' st)) (\<lambda>st.
            and_then (Some (yield s st)) (\<lambda>st.
            Some (yield '']]>'' st)))
          else Some (yield (cgi_escape False s) st)
      | PRaw fs \<Rightarrow> Some (yield_all fs st)
      | PElem e \<Rightarrow> Element_iter n e st
      | _ \<Rightarrow> None)"

text \<open>What consumers do with the iterator: \<open>list(el)\<close> takes every fragment,
  \<open>"".join(el)\<close> (\<open>Element.__str__\<close>) joins them, and a consumer that calls
  \<open>next\<close> \<open>k\<close> times and then stops takes \<open>k\<close> fragments. In each case the
  result also tells how far the generator objects among the children have been run.\<close>

definition consume :: "nat option \<Rightarrow> nat \<Rightarrow> element \<Rightarrow> (nat \<Rightarrow> nat) \<Rightarrow> (outcome \<times> state) option" where
  "consume k n self gs =
     (if k = Some 0 then Some (Suspended, \<lparr>gens = gs, out = [], wanted = k\<rparr>)
      else Element_iter n self \<lparr>gens = gs, out = [], wanted = k\<rparr>)"

definition Element_list :: "nat \<Rightarrow> element \<Rightarrow> (nat \<Rightarrow> nat) \<Rightarrow> (error + string list) option" where
  "Element_list n self gs =
     (case consume None n self gs of
        None \<Rightarrow> None
      | Some (Raised e, st) \<Rightarrow> Some (Inl e)
      | Some (oc, st) \<Rightarrow> Some (Inr (out st)))"

definition Element_str :: "nat \<Rightarrow> element \<Rightarrow> (nat \<Rightarrow> nat) \<Rightarrow> (error + string) option" where
  "Element_str n self gs =
     (case Element_list n self gs of
        None \<Rightarrow> None
      | Some (Inl e) \<Rightarrow> Some (Inl e)
      | Some (Inr frags) \<Rightarrow> Some (Inr (concat frags)))"

text \<open>One round of the \<open>for\<close> loop of \<open>flat_children\<close>, on the item \<open>child\<close>.\<close>

definition loop_body :: "nat \<Rightarrow> element \<Rightarrow> pyval \<Rightarrow> state \<Rightarrow> (outcome \<times> state) option" where
  "loop_body n self child st =
     (if is_str_or_RawString child then emit_child n self child st
      else if \<not> is_None child then flat_children n self child st
      else Some (Normal, st))"

section \<open>Children that can be iterated again\<close>

text \<open>
  \<open>static\<close> values hold no generator object: strings, \<open>RawString\<close>s, numbers, lists,
  dicts and Elements built from them. \<open>plain\<close> values are the static values that
  \<open>flat_children\<close> walks through without an exception and without falling back to
  \<open>self.children\<close>: every value that is not a leaf and not \<open>None\<close> is a list or
  dict that is not empty.
\<close>

fun static :: "pyval \<Rightarrow> bool" and static_element :: "element \<Rightarrow> bool" where
  "static (PList xs) = (\<forall>x \<in> set xs. static x)"
| "static (PElem e) = static_element e"
| "static (PGen g xs e) = False"
| "static (PGenInf g f) = False"
| "static PNone = True"
| "static (PStr s) = True"
| "static (PInt i) = True"
| "static (PDict d) = True"
| "static (PTag t) = True"
| "static (PRaw fs) = True"
| "static_element (Element t cs as) = (\<forall>x \<in> set cs. static x)"

fun plain :: "pyval \<Rightarrow> bool" and plain_element :: "element \<Rightarrow> bool" where
  "plain (PList xs) = (xs \<noteq> [] \<and> (\<forall>x \<in> set xs. plain x))"
| "plain (PElem e) = plain_element e"
| "plain (PDict d) = (d \<noteq> [])"
| "plain PNone = True"
| "plain (PStr s) = True"
| "plain (PRaw fs) = True"
| "plain (PInt i) = False"
| "plain (PTag t) = False"
| "plain (PGen g xs e) = False"
| "plain (PGenInf g f) = False"
| "plain_element (Element t cs as) = (\<forall>x \<in> set cs. plain x)"

text \<open>The fragments of an Element with plain children, and of one plain child under a
  tag whose \<open>cdata_section\<close> option is \<open>cd\<close>, by recursion on the value.\<close>

definition text_fragments :: "bool \<Rightarrow> string \<Rightarrow> string list" where
  "text_fragments cd s = (if cd then [''<![CDATA['', s, '']]>''] else [cgi_escape False s])"

fun fragments :: "element \<Rightarrow> string list"
and child_fragments :: "bool \<Rightarrow> pyval \<Rightarrow> string list" where
  "fragments (Element t cs as) =
     (''<'' @ name t) # map attribute_fragment as @
     (if cs \<noteq> [] then
        ''>'' # concat (map (child_fragments (option_get t ''cdata_section'' False)) cs)
          @ [''</'' @ name t @ ''>'']
      else if option_get t ''shorten_empty_tag'' True then ['' />'']
      else [''></'' @ name t @ ''>''])"
| "child_fragments cd (PStr s) = text_fragments cd s"
| "child_fragments cd (PRaw fs) = fs"
| "child_fragments cd (PElem e) = fragments e"
| "child_fragments cd PNone = []"
| "child_fragments cd (PList xs) = concat (map (child_fragments cd) xs)"
| "child_fragments cd (PDict d) = concat (map (\<lambda>(k, v). text_fragments cd k) d)"
| "child_fragments cd (PInt i) = []"
| "child_fragments cd (PTag t) = []"
| "child_fragments cd (PGen g xs e) = []"
| "child_fragments cd (PGenInf g f) = []"

section \<open>The flattening rules in the specification's words\<close>




text \<open>
  A piece of generator code is independent of the generator objects when it leaves their
  progress as it is and does the same whatever their progress.
\<close>

definition gens_independent :: "(state \<Rightarrow> (outcome \<times> state) option) \<Rightarrow> bool" where
  "gens_independent f =
     (\<forall>st oc st'. f st = Some (oc, st') \<longrightarrow>
        gens st' = gens st \<and> (\<forall>G. f (st\<lparr>gens := G\<rparr>) = Some (oc, st'\<lparr>gens := G\<rparr>)))"

abbreviation cdata :: "element \<Rightarrow> bool" where
  "cdata self \<equiv> option_get (tag self) ''cdata_section'' False"

text \<open>The fragments of an Element with children up to and including \<open>>\<close>, and the
  fragments of the \<open>m\<close> values that a generator yields from its \<open>p\<close>-th on, when
  \<open>f i\<close> is the \<open>i\<close>-th value it yields.\<close>

definition open_tag :: "element \<Rightarrow> string list" where
  "open_tag e = (''<'' @ name (tag e)) # map attribute_fragment (attributes e) @ [''>'']"

definition gen_fragments :: "bool \<Rightarrow> (nat \<Rightarrow> pyval) \<Rightarrow> nat \<Rightarrow> nat \<Rightarrow> string list" where
  "gen_fragments cd f p m = concat (map (\<lambda>i. child_fragments cd (f i)) [p ..< p + m])"

section \<open>Sequencing and the number of steps\<close>

lemma and_then_simps [simp]:
  "and_then None rest = None"
  "and_then (Some (Normal, st)) rest = rest st"
  "and_then (Some (Raised e, st)) rest = Some (Raised e, st)"
  "and_then (Some (Suspended, st)) rest = Some (Suspended, st)"
  by (simp_all add: and_then_def)

lemma and_then_mono:
  assumes "and_then a k = Some r"
    and "\<And>x. a = Some x \<Longrightarrow> a' = Some x"
    and "\<And>st x. k st = Some x \<Longrightarrow> k' st = Some x"
  shows "and_then a' k' = Some r"
proof (cases a)
  case None
  with assms(1) show ?thesis by simp
next
  case (Some x)
  obtain oc st where x: "x = (oc, st)" by (cases x)
  have a': "a' = Some (oc, st)" using assms(2) Some x by simp
  show ?thesis using assms(1) assms(3) Some x a' by (cases oc) auto
qed

declare Element_iter.simps(2) [simp del] flat_children.simps(2) [simp del]
  flat_loop.simps(2) [simp del] emit_child.simps(2) [simp del]

lemma fuel_Suc:
  "(\<forall>self st r. Element_iter n self st = Some r \<longrightarrow> Element_iter (Suc n) self st = Some r) \<and>
   (\<forall>self v st r. flat_children n self v st = Some r \<longrightarrow> flat_children (Suc n) self v st = Some r) \<and>
   (\<forall>self it st r. flat_loop n self it st = Some r \<longrightarrow> flat_loop (Suc n) self it st = Some r) \<and>
   (\<forall>self v st r. emit_child n self v st = Some r \<longrightarrow> emit_child (Suc n) self v st = Some r)"
proof (induction n)
  case 0
  show ?case by simp
next
  case (Suc n)
  have E: "\<And>self st r. Element_iter n self st = Some r \<Longrightarrow> Element_iter (Suc n) self st = Some r"
    and C: "\<And>self v st r. flat_children n self v st = Some r \<Longrightarrow> flat_children (Suc n) self v st = Some r"
    and L: "\<And>self it st r. flat_loop n self it st = Some r \<Longrightarrow> flat_loop (Suc n) self it st = Some r"
    and M: "\<And>self v st r. emit_child n self v st = Some r \<Longrightarrow> emit_child (Suc n) self v st = Some r"
    using Suc by blast+
  have 1: "Element_iter (Suc (Suc n)) self st = Some r" if "Element_iter (Suc n) self st = Some r" for self st r
    using that
    apply (subst Element_iter.simps(2))
    apply (subst (asm) Element_iter.simps(2))
    apply (erule and_then_mono, assumption)
    apply (erule and_then_mono, assumption)
    apply (simp split: if_splits)
    apply (erule and_then_mono, assumption)
    apply (erule and_then_mono)
     apply (erule C)
    apply assumption
    done
  have 2: "flat_children (Suc (Suc n)) self v st = Some r" if "flat_children (Suc n) self v st = Some r" for self v st r
    using that
    apply (subst flat_children.simps(2))
    apply (subst (asm) flat_children.simps(2))
    apply (auto split: option.splits sum.splits intro: L)
    done
  have 3: "flat_loop (Suc (Suc n)) self it st = Some r" if "flat_loop (Suc n) self it st = Some r" for self it st r
    using that
    apply (subst flat_loop.simps(2))
    apply (subst (asm) flat_loop.simps(2))
    apply (auto split: prod.splits step.splits if_splits intro: L elim!: and_then_mono M C)
    done
  have 4: "emit_child (Suc (Suc n)) self v st = Some r" if "emit_child (Suc n) self v st = Some r" for self v st r
    using that
    apply (subst emit_child.simps(2))
    apply (subst (asm) emit_child.simps(2))
    apply (auto split: pyval.splits if_splits intro: E)
    done
  show ?case using 1 2 3 4 by blast
qed

section \<open>Plain children: what the iterator yields\<close>

lemma Element_iter_mono: "n \<le> m \<Longrightarrow> Element_iter n self st = Some r \<Longrightarrow> Element_iter m self st = Some r"
  by (induction m) (auto simp: le_Suc_eq fuel_Suc)

lemma flat_children_mono: "n \<le> m \<Longrightarrow> flat_children n self v st = Some r \<Longrightarrow> flat_children m self v st = Some r"
  by (induction m) (auto simp: le_Suc_eq fuel_Suc)

lemma flat_loop_mono: "n \<le> m \<Longrightarrow> flat_loop n self it st = Some r \<Longrightarrow> flat_loop m self it st = Some r"
  by (induction m) (auto simp: le_Suc_eq fuel_Suc)

lemma emit_child_mono: "n \<le> m \<Longrightarrow> emit_child n self v st = Some r \<Longrightarrow> emit_child m self v st = Some r"
  by (induction m) (auto simp: le_Suc_eq fuel_Suc)

lemma loop_body_mono: "n \<le> m \<Longrightarrow> loop_body n self v st = Some r \<Longrightarrow> loop_body m self v st = Some r"
  by (auto simp: loop_body_def intro: emit_child_mono flat_children_mono split: if_splits)

lemma flat_loop_Nil: "flat_loop (Suc n) self (ListIter []) st = Some (Normal, st)"
  by (simp add: flat_loop.simps(2))

lemma flat_loop_Cons:
  "flat_loop (Suc n) self (ListIter (v # vs)) st =
     and_then (loop_body n self v st) (flat_loop n self (ListIter vs))"
  by (simp add: flat_loop.simps(2) loop_body_def)

lemma yield_all_append:
  "yield_all (xs @ ys) st =
     (case yield_all xs st of (Normal, st') \<Rightarrow> yield_all ys st' | r \<Rightarrow> r)"
  by (induction xs arbitrary: st) (auto split: prod.splits outcome.splits)

lemma and_then_yield_all:
  "and_then (Some (yield_all xs st)) (\<lambda>st. Some (yield_all ys st)) = Some (yield_all (xs @ ys) st)"
  by (auto simp: yield_all_append and_then_def split: prod.splits outcome.splits)

lemma and_then_yield_all_rest:
  "(\<And>st. k st = Some (yield_all ys st)) \<Longrightarrow>
     and_then (Some (yield_all xs st)) k = Some (yield_all (xs @ ys) st)"
  by (auto simp: yield_all_append and_then_def split: prod.splits outcome.splits)

lemma and_then_yield:
  "and_then (Some (yield x st)) (\<lambda>st. Some (yield_all ys st)) = Some (yield_all (x # ys) st)"
  by (auto simp: and_then_def split: prod.splits outcome.splits)

lemma yield_all_single: "yield_all [x] st = yield x st"
  by (auto split: prod.splits outcome.splits)

lemma and_then_yield_rest:
  "(\<And>st. k st = Some (yield_all ys st)) \<Longrightarrow>
     and_then (Some (yield x st)) k = Some (yield_all (x # ys) st)"
  by (auto simp: and_then_def split: prod.splits outcome.splits)

lemma flat_loop_list:
  assumes "\<forall>v \<in> set vs. \<exists>n. \<forall>self st. loop_body n self v st = Some (yield_all (child_fragments (cdata self) v) st)"
  shows "\<exists>n. \<forall>self st. flat_loop n self (ListIter vs) st =
           Some (yield_all (concat (map (child_fragments (cdata self)) vs)) st)"
  using assms
proof (induction vs)
  case Nil
  have "\<forall>self st. flat_loop (Suc 0) self (ListIter []) st = Some (yield_all (concat (map (child_fragments (cdata self)) [])) st)"
    by (simp add: flat_loop_Nil)
  then show ?case by blast
next
  case (Cons v vs)
  obtain n1 where n1: "\<And>self st. loop_body n1 self v st = Some (yield_all (child_fragments (cdata self) v) st)"
    using Cons.prems by auto
  obtain n2 where n2: "\<And>self st. flat_loop n2 self (ListIter vs) st =
           Some (yield_all (concat (map (child_fragments (cdata self)) vs)) st)"
    using Cons by auto
  let ?m = "max n1 n2"
  have "flat_loop (Suc ?m) self (ListIter (v # vs)) st =
           Some (yield_all (concat (map (child_fragments (cdata self)) (v # vs))) st)" for self st
  proof -
    have a: "loop_body ?m self v st = Some (yield_all (child_fragments (cdata self) v) st)" for st
      by (rule loop_body_mono [OF _ n1]) simp
    have b: "flat_loop ?m self (ListIter vs) st =
           Some (yield_all (concat (map (child_fragments (cdata self)) vs)) st)" for st
      by (rule flat_loop_mono [OF _ n2]) simp
    show ?thesis
      by (simp add: flat_loop_Cons a and_then_yield_all_rest [OF b])
  qed
  then show ?case by blast
qed

lemma loop_body_text:
  "loop_body (Suc n) self (PStr s) st = Some (yield_all (text_fragments (cdata self) s) st)"
  by (auto simp: loop_body_def emit_child.simps(2) text_fragments_def and_then_def
      split: prod.splits outcome.splits)

lemma plain_fragments:
  "plain v \<longrightarrow> (\<exists>n. \<forall>self st. loop_body n self v st = Some (yield_all (child_fragments (cdata self) v) st))"
  "plain_element e \<longrightarrow> (\<exists>n. \<forall>st. Element_iter n e st = Some (yield_all (fragments e) st))"
proof (induction v and e)
  case PNone
  have "\<forall>self st. loop_body 0 self PNone st = Some (yield_all (child_fragments (cdata self) PNone) st)"
    by (simp add: loop_body_def)
  then show ?case by blast
next
  case (PStr s)
  have "\<forall>self st. loop_body (Suc 0) self (PStr s) st = Some (yield_all (child_fragments (cdata self) (PStr s)) st)"
    by (simp add: loop_body_text)
  then show ?case by blast
next
  case (PRaw fs)
  have "\<forall>self st. loop_body (Suc 0) self (PRaw fs) st = Some (yield_all (child_fragments (cdata self) (PRaw fs)) st)"
    by (simp add: loop_body_def emit_child.simps(2))
  then show ?case by blast
next
  case (PElem e)
  show ?case
  proof
    assume "plain (PElem e)"
    then obtain n where n: "\<And>st. Element_iter n e st = Some (yield_all (fragments e) st)"
      using PElem by auto
    have "\<forall>self st. loop_body (Suc n) self (PElem e) st = Some (yield_all (child_fragments (cdata self) (PElem e)) st)"
      by (simp add: loop_body_def emit_child.simps(2) n)
    then show "\<exists>n. \<forall>self st. loop_body n self (PElem e) st = Some (yield_all (child_fragments (cdata self) (PElem e)) st)"
      by blast
  qed
next
  case (PList xs)
  show ?case
  proof
    assume p: "plain (PList xs)"
    then have "\<forall>v \<in> set xs. \<exists>n. \<forall>self st. loop_body n self v st = Some (yield_all (child_fragments (cdata self) v) st)"
      using PList by auto
    from flat_loop_list [OF this] obtain n where
      n: "\<And>self st. flat_loop n self (ListIter xs) st = Some (yield_all (concat (map (child_fragments (cdata self)) xs)) st)"
      by blast
    have "\<forall>self st. loop_body (Suc n) self (PList xs) st = Some (yield_all (child_fragments (cdata self) (PList xs)) st)"
      using p by (simp add: loop_body_def flat_children.simps(2) n)
    then show "\<exists>n. \<forall>self st. loop_body n self (PList xs) st = Some (yield_all (child_fragments (cdata self) (PList xs)) st)"
      by blast
  qed
next
  case (PDict d)
  show ?case
  proof
    assume p: "plain (PDict d)"
    let ?ks = "map (\<lambda>(k, v). PStr k) d"
    have "\<forall>v \<in> set ?ks. \<exists>n. \<forall>self st. loop_body n self v st = Some (yield_all (child_fragments (cdata self) v) st)"
    proof
      fix v assume "v \<in> set ?ks"
      then obtain k where v: "v = PStr k" by auto
      have "\<forall>self st. loop_body (Suc 0) self v st = Some (yield_all (child_fragments (cdata self) v) st)"
        by (simp add: v loop_body_text)
      then show "\<exists>n. \<forall>self st. loop_body n self v st = Some (yield_all (child_fragments (cdata self) v) st)"
        by blast
    qed
    from flat_loop_list [OF this] obtain n where
      n: "\<And>self st. flat_loop n self (ListIter ?ks) st = Some (yield_all (concat (map (child_fragments (cdata self)) ?ks)) st)"
      by blast
    have eq: "concat (map (child_fragments cd \<circ> (\<lambda>(k, v). PStr k)) d) = child_fragments cd (PDict d)" for cd
      by (simp add: comp_def case_prod_unfold)
    have "\<forall>self st. loop_body (Suc n) self (PDict d) st = Some (yield_all (child_fragments (cdata self) (PDict d)) st)"
      using p by (simp add: loop_body_def flat_children.simps(2) n eq del: child_fragments.simps)
    then show "\<exists>n. \<forall>self st. loop_body n self (PDict d) st = Some (yield_all (child_fragments (cdata self) (PDict d)) st)"
      by blast
  qed
next
  case (Element t cs as)
  show ?case
  proof
    assume p: "plain_element (Element t cs as)"
    then have "\<forall>v \<in> set cs. \<exists>n. \<forall>self st. loop_body n self v st = Some (yield_all (child_fragments (cdata self) v) st)"
      using Element by auto
    from flat_loop_list [OF this] obtain n where
      n: "\<And>self st. flat_loop n self (ListIter cs) st = Some (yield_all (concat (map (child_fragments (cdata self)) cs)) st)"
      by blast
    let ?self = "Element t cs as"
    let ?close = "''</'' @ name t @ ''>''"
    let ?kids = "concat (map (child_fragments (option_get t ''cdata_section'' False)) cs)"
    let ?tail = "if cs \<noteq> [] then ''>'' # ?kids @ [?close]
      else if option_get t ''shorten_empty_tag'' True then ['' />''] else [''></'' @ name t @ ''>'']"
    have k3: "and_then (flat_children (Suc n) ?self PNone st) (\<lambda>st. Some (yield ?close st)) =
        Some (yield_all (?kids @ [?close]) st)" for st
      using n [of ?self]
      by (simp add: flat_children.simps(2) and_then_yield_all_rest yield_all_single del: yield_all.simps)
    have k2: "(if cs \<noteq> [] then
         and_then (Some (yield ''>'' st)) (\<lambda>st.
         and_then (flat_children (Suc n) ?self PNone st) (\<lambda>st.
         Some (yield ?close st)))
       else if option_get t ''shorten_empty_tag'' True then
         Some (yield '' />'' st)
       else
         Some (yield (''></'' @ name t @ ''>'') st)) = Some (yield_all ?tail st)" for st
      using k3 by (simp add: and_then_yield_rest yield_all_single del: yield_all.simps)
    have "Element_iter (Suc (Suc n)) ?self st = Some (yield_all (fragments ?self) st)" for st
    proof -
      have "Element_iter (Suc (Suc n)) ?self st =
        and_then (Some (yield (''<'' @ name t) st)) (\<lambda>st.
        and_then (Some (yield_all (map attribute_fragment as) st)) (\<lambda>st.
          if cs \<noteq> [] then
         and_then (Some (yield ''>'' st)) (\<lambda>st.
         and_then (flat_children (Suc n) ?self PNone st) (\<lambda>st.
         Some (yield ?close st)))
       else if option_get t ''shorten_empty_tag'' True then
         Some (yield '' />'' st)
       else
         Some (yield (''></'' @ name t @ ''>'') st)))"
        by (simp add: Element_iter.simps(2) cong: if_cong)
      also have "\<dots> = Some (yield_all ((''<'' @ name t) # map attribute_fragment as @ ?tail) st)"
        by (rule and_then_yield_rest, rule and_then_yield_all_rest, rule k2)
      finally show ?thesis by simp
    qed
    then have "\<forall>st. Element_iter (Suc (Suc n)) ?self st = Some (yield_all (fragments ?self) st)"
      by blast
    then show "\<exists>n. \<forall>st. Element_iter n (Element t cs as) st = Some (yield_all (fragments (Element t cs as)) st)"
      by blast
  qed
qed simp_all

lemma wanted_out_update [simp]: "wanted (st\<lparr>out := x\<rparr>) = wanted st"
  by simp

lemma yield_None: "wanted st = None \<Longrightarrow> yield s st = (Normal, st\<lparr>out := out st @ [s]\<rparr>)"
  by (simp add: yield_def)

lemma yield_all_None:
  "wanted st = None \<Longrightarrow> yield_all fs st = (Normal, st\<lparr>out := out st @ fs\<rparr>)"
  by (induction fs arbitrary: st) (simp_all add: yield_None)

lemma yield_all_more:
  "wanted st = Some k \<Longrightarrow> length fs < k \<Longrightarrow>
     yield_all fs st = (Normal, st\<lparr>out := out st @ fs, wanted := Some (k - length fs)\<rparr>)"
proof (induction fs arbitrary: st k)
  case Nil
  then show ?case by simp
next
  case (Cons f fs)
  then obtain j where j: "k = Suc j" "j \<noteq> 0" by (cases k) auto
  have y: "yield f st = (Normal, st\<lparr>out := out st @ [f], wanted := Some j\<rparr>)"
    using Cons.prems j by (simp add: yield_def)
  show ?case using Cons.prems j
    by (simp add: y Cons.IH [of "st\<lparr>out := out st @ [f], wanted := Some j\<rparr>" j])
qed

lemma yield_all_stop:
  "wanted st = Some k \<Longrightarrow> k \<le> length fs \<Longrightarrow> fs \<noteq> [] \<Longrightarrow>
     yield_all fs st = (Suspended, st\<lparr>out := out st @ take k fs, wanted := Some 0\<rparr>)"
proof (induction fs arbitrary: st k)
  case Nil
  then show ?case by simp
next
  case (Cons f fs)
  show ?case
  proof (cases k)
    case 0
    then show ?thesis using Cons.prems by (simp add: yield_def)
  next
    case (Suc j)
    show ?thesis
    proof (cases "j = 0")
      case True
      then show ?thesis using Cons.prems Suc by (simp add: yield_def)
    next
      case False
      have y: "yield f st = (Normal, st\<lparr>out := out st @ [f], wanted := Some j\<rparr>)"
        using Cons.prems Suc False by (simp add: yield_def)
      have "fs \<noteq> []" using Cons.prems Suc False by auto
      then show ?thesis using Cons.prems Suc False
        by (simp add: y Cons.IH [of "st\<lparr>out := out st @ [f], wanted := Some j\<rparr>" j])
    qed
  qed
qed

lemma plain_element_iter:
  assumes "plain_element e"
  shows "\<exists>n0. \<forall>n\<ge>n0. \<forall>st. Element_iter n e st = Some (yield_all (fragments e) st)"
proof -
  obtain n0 where n0: "\<And>st. Element_iter n0 e st = Some (yield_all (fragments e) st)"
    using plain_fragments(2) [of e] assms by blast
  have "\<forall>n\<ge>n0. \<forall>st. Element_iter n e st = Some (yield_all (fragments e) st)"
    using Element_iter_mono [OF _ n0] by blast
  then show ?thesis by blast
qed

lemma fragments_not_Nil: "fragments e \<noteq> []"
  by (cases e) simp

lemma consume_plain:
  assumes "\<forall>st. Element_iter n e st = Some (yield_all (fragments e) st)"
  shows "consume k n e gs = Some (yield_all (fragments e) \<lparr>gens = gs, out = [], wanted = k\<rparr>)"
proof (cases "k = Some 0")
  case True
  then show ?thesis
    by (cases e) (simp add: consume_def yield_def)
next
  case False
  then show ?thesis using assms by (simp add: consume_def)
qed

lemma Element_list_plain:
  assumes "plain_element e"
  shows "\<exists>n0. \<forall>n\<ge>n0. \<forall>gs. Element_list n e gs = Some (Inr (fragments e))"
proof -
  obtain n0 where n0: "\<forall>n\<ge>n0. \<forall>st. Element_iter n e st = Some (yield_all (fragments e) st)"
    using plain_element_iter [OF assms] by blast
  have "Element_list n e gs = Some (Inr (fragments e))" if "n \<ge> n0" for n gs
  proof -
    have "\<forall>st. Element_iter n e st = Some (yield_all (fragments e) st)" using n0 that by blast
    from consume_plain [OF this, of None gs] show ?thesis
      by (simp add: Element_list_def yield_all_None)
  qed
  then show ?thesis by blast
qed

lemma and_then_yield_all_assoc:
  "and_then (Some (yield_all xs st)) (\<lambda>st. and_then (Some (yield_all ys st)) K) =
     and_then (Some (yield_all (xs @ ys) st)) K"
  by (auto simp: yield_all_append and_then_def split: prod.splits outcome.splits)

lemma and_then_yield_assoc:
  "and_then (Some (yield x st)) (\<lambda>st. and_then (Some (yield_all ys st)) K) =
     and_then (Some (yield_all (x # ys) st)) K"
  by (auto simp: and_then_def split: prod.splits outcome.splits)

lemma and_then_yield_all_yield:
  "and_then (Some (yield_all xs st)) (\<lambda>st. and_then (Some (yield y st)) K) =
     and_then (Some (yield_all (xs @ [y]) st)) K"
  using and_then_yield_all_assoc [of xs st "[y]" K] by (simp add: yield_all_single del: yield_all.simps)

lemma digits_123: "digits 123 = ''123''"
  by code_simp

section \<open>Attributes\<close>

text \<open>
  C1. The claim: the attribute fragments are emitted in ascending order of the attribute
  names, whatever the order in which the attributes were supplied. The docstring of
  \<open>Element.__init__\<close> shows this for
  \<open>Element(Tag("div"), class_="css class", attr_name=123)\<close>, with the result
  \<open><div attr-name="123" class="css class" />\<close>. \<open>__iter__\<close> walks
  \<open>self.attributes.items()\<close> and does not sort: on this input the constructed
  Element holds \<open>class\<close> before \<open>attr-name\<close> and emits them in that order.
\<close>

theorem attributes_in_insertion_order:
  \<open>Element_init [PTag \<lparr>name = ''div'', options = []\<rparr>]
       [(''class_'', AStr ''css class''), (''attr_name'', AInt 123)] =
     Inr (Element \<lparr>name = ''div'', options = []\<rparr> []
            [(''class'', AStr ''css class''), (''attr-name'', AInt 123)]) \<and>
   Element_list (Suc n)
       (Element \<lparr>name = ''div'', options = []\<rparr> []
            [(''class'', AStr ''css class''), (''attr-name'', AInt 123)]) gs =
     Some (Inr [''<div'', '' class="css class"'', '' attr-name="123"'', '' />''])\<close>
  by (simp add: Element_init_def dict_of_pairs_def dict_update_def attribute_name_def
      str_strip_def str_replace_def Element_list_def consume_def Element_iter.simps(2)
      yield_None yield_all_None option_get_def attribute_fragment_def cgi_escape_def digits_123)

text \<open>
  C2. The claim: each attribute is emitted as \<open> name="value"\<close> with the value
  converted by \<open>str\<close> and then escaped, the escaping replacing at least
  \<open>&\<close>, \<open><\<close>, \<open>>\<close> and the double quote. \<open>__iter__\<close> calls
  \<open>cgi.escape(str(value))\<close> without \<open>quote=True\<close>, which leaves the double
  quote alone: the attribute value \<open>say "hi"\<close> is emitted with its quotes, and they
  end the attribute early.
\<close>

theorem quote_not_escaped:
  \<open>Element_init [PTag \<lparr>name = ''a'', options = []\<rparr>] [(''title'', AStr ''say "hi"'')] =
     Inr (Element \<lparr>name = ''a'', options = []\<rparr> [] [(''title'', AStr ''say "hi"'')]) \<and>
   Element_list (Suc n)
       (Element \<lparr>name = ''a'', options = []\<rparr> [] [(''title'', AStr ''say "hi"'')]) gs =
     Some (Inr [''<a'', '' title="say "hi""'', '' />''])\<close>
  by (simp add: Element_init_def dict_of_pairs_def dict_update_def attribute_name_def
      str_strip_def str_replace_def Element_list_def consume_def Element_iter.simps(2)
      yield_None yield_all_None option_get_def attribute_fragment_def cgi_escape_def)

section \<open>Empty elements and closing tags\<close>








section \<open>Construction\<close>




lemma set_dict_setitem: "set (dict_setitem k v d) \<subseteq> insert (k, v) (set d)"
  by (induction d) (auto split: if_splits)

lemma set_dict_update: "set (dict_update d ps) \<subseteq> set d \<union> set ps"
  unfolding dict_update_def
proof (induction ps arbitrary: d)
  case Nil
  show ?case by simp
next
  case (Cons p ps)
  obtain k v where p: "p = (k, v)" by (cases p)
  have "set (foldl (\<lambda>acc (k, v). dict_setitem k v acc) (dict_setitem k v d) ps)
          \<subseteq> set (dict_setitem k v d) \<union> set ps"
    by (rule Cons.IH)
  then show ?case using set_dict_setitem [of k v d] by (auto simp: p)
qed

lemma set_dict_of_pairs: "set (dict_of_pairs ps) \<subseteq> set ps"
  using set_dict_update [of "[]" ps] by (simp add: dict_of_pairs_def)

lemma attribute_name_no_underscore: "CHR ''_'' \<notin> set (attribute_name nm)"
  by (auto simp: attribute_name_def str_replace_def)

lemma merge_dicts_filter:
  "merge_dicts kwargs (filter (\<lambda>c. \<not> is_dict c) args) = kwargs"
proof (induction args arbitrary: kwargs)
  case Nil
  show ?case by simp
next
  case (Cons c cs)
  then show ?case by (cases c) simp_all
qed

lemma filter_filter_same: "filter P (filter P xs) = filter P xs"
  by (induction xs) simp_all

lemma Element_init_attributes:
  assumes "Element_init args kwargs = Inr e"
  shows "set (attributes e) \<subseteq> set (map (\<lambda>(nm, v). (attribute_name nm, v))
                            (filter (\<lambda>(nm, v). v \<noteq> ANone) (merge_dicts kwargs args)))"
    and "children e = tl (filter (\<lambda>c. \<not> is_dict c) args)"
proof -
  obtain first rest where f: "filter (\<lambda>c. \<not> is_dict c) args = first # rest"
    using assms by (auto simp: Element_init_def split: list.splits)
  obtain t where t: "first = PTag t"
    using assms f by (auto simp: Element_init_def split: pyval.splits)
  have e: "e = Element t rest (dict_of_pairs (map (\<lambda>(nm, v). (attribute_name nm, v))
                            (filter (\<lambda>(nm, v). v \<noteq> ANone) (merge_dicts kwargs args))))"
    using assms f t by (simp add: Element_init_def)
  show "children e = tl (filter (\<lambda>c. \<not> is_dict c) args)" using e f by simp
  show "set (attributes e) \<subseteq> set (map (\<lambda>(nm, v). (attribute_name nm, v))
                            (filter (\<lambda>(nm, v). v \<noteq> ANone) (merge_dicts kwargs args)))"
    unfolding e element.sel by (rule set_dict_of_pairs)
qed

text \<open>
  C8. \<open>tag("text", {"class": "c"})\<close> and \<open>tag("text", class_="c")\<close> construct the
  same Element, hence give the same output. In general the mappings among the positional
  arguments are merged into the keyword attributes, in order and after them, and the
  Element is the one constructed without the mappings from the merged attributes; no
  mapping is among the children; and every attribute name of the Element is
  \<open>name.strip("_").replace("_", "-")\<close> of a supplied name, with no underscore left
  (\<open>class_\<close> gives \<open>class\<close>, \<open>attr_name\<close> gives \<open>attr-name\<close>).
\<close>

theorem positional_mappings_are_attributes:
  "Element_init [PTag t, PStr ''text'', PDict [(''class'', AStr ''c'')]] [] =
     Element_init [PTag t, PStr ''text''] [(''class_'', AStr ''c'')]
   \<and> Element_init [PTag t, PStr ''text''] [(''class_'', AStr ''c'')] =
       Inr (Element t [PStr ''text''] [(''class'', AStr ''c'')])
   \<and> Element_init args kwargs =
       Element_init (filter (\<lambda>c. \<not> is_dict c) args) (merge_dicts kwargs args)
   \<and> (Element_init args kwargs = Inr e \<longrightarrow>
        (\<forall>c \<in> set (children e). \<not> is_dict c) \<and>
        (\<forall>(k, v) \<in> set (attributes e). CHR ''_'' \<notin> set k \<and>
            (\<exists>k'. (k', v) \<in> set (merge_dicts kwargs args) \<and> k = attribute_name k')))
   \<and> attribute_name ''class_'' = ''class'' \<and> attribute_name ''attr_name'' = ''attr-name''"
proof (intro conjI impI)
  show "Element_init [PTag t, PStr ''text'', PDict [(''class'', AStr ''c'')]] [] =
     Element_init [PTag t, PStr ''text''] [(''class_'', AStr ''c'')]"
    by (simp add: Element_init_def dict_of_pairs_def dict_update_def attribute_name_def
        str_strip_def str_replace_def)
  show "Element_init [PTag t, PStr ''text''] [(''class_'', AStr ''c'')] =
       Inr (Element t [PStr ''text''] [(''class'', AStr ''c'')])"
    by (simp add: Element_init_def dict_of_pairs_def dict_update_def attribute_name_def
        str_strip_def str_replace_def)
  show "Element_init args kwargs =
       Element_init (filter (\<lambda>c. \<not> is_dict c) args) (merge_dicts kwargs args)"
    unfolding Element_init_def filter_filter_same merge_dicts_filter ..
  show "attribute_name ''class_'' = ''class''"
    by (simp add: attribute_name_def str_strip_def str_replace_def)
  show "attribute_name ''attr_name'' = ''attr-name''"
    by (simp add: attribute_name_def str_strip_def str_replace_def)
next
  assume a: "Element_init args kwargs = Inr e"
  have "set (children e) \<subseteq> set (filter (\<lambda>c. \<not> is_dict c) args)"
    using Element_init_attributes(2) [OF a]
    by (cases "filter (\<lambda>c. \<not> is_dict c) args") (auto simp del: filter.simps)
  then show "\<forall>c \<in> set (children e). \<not> is_dict c" by auto
  show "\<forall>(k, v) \<in> set (attributes e). CHR ''_'' \<notin> set k \<and>
            (\<exists>k'. (k', v) \<in> set (merge_dicts kwargs args) \<and> k = attribute_name k')"
    using Element_init_attributes(1) [OF a] attribute_name_no_underscore by fastforce
qed

theorem positional_mappings_are_attributes_witness:
  "Element_init [PTag \<lparr>name = ''p'', options = []\<rparr>, PStr ''text'', PDict [(''class'', AStr ''c'')]] [] =
     Inr (Element \<lparr>name = ''p'', options = []\<rparr> [PStr ''text''] [(''class'', AStr ''c'')]) \<and>
   list_all (\<lambda>c. \<not> is_dict c)
     (children (Element \<lparr>name = ''p'', options = []\<rparr> [PStr ''text''] [(''class'', AStr ''c'')])) \<and>
   list_all (\<lambda>(k, v). CHR ''_'' \<notin> set k)
     (attributes (Element \<lparr>name = ''p'', options = []\<rparr> [PStr ''text''] [(''class'', AStr ''c'')]))"
  using positional_mappings_are_attributes
     [of "\<lparr>name = ''p'', options = []\<rparr>"
         "[PTag \<lparr>name = ''p'', options = []\<rparr>, PStr ''text'', PDict [(''class'', AStr ''c'')]]"
         "[]" "Element \<lparr>name = ''p'', options = []\<rparr> [PStr ''text''] [(''class'', AStr ''c'')]"]
  by simp

text \<open>
  C9. \<open>tag(None, "x", class_=None)\<close> gives every consumer the same fragments as
  \<open>tag("x")\<close>, and the same string. No attribute of a constructed Element has the
  value \<open>None\<close>, and a \<open>None\<close> child takes one round of the loop of
  \<open>flat_children\<close> that yields nothing and leaves the state as it was.
\<close>

theorem None_is_dropped:
  "(\<exists>e1 e2. Tag_call t [PNone, PStr ''x''] [(''class_'', ANone)] = Inr e1 \<and>
        Tag_call t [PStr ''x''] [] = Inr e2 \<and> attributes e1 = [] \<and>
        (\<exists>n0. \<forall>n\<ge>n0. \<forall>k gs. consume k n e1 gs = consume k n e2 gs \<and> consume k n e2 gs \<noteq> None \<and>
             Element_str n e1 gs = Element_str n e2 gs \<and>
             Element_str n e2 gs = Some (Inr (concat (fragments e2)))))
   \<and> (Element_init args kwargs = Inr e \<longrightarrow> ANone \<notin> snd ` set (attributes e))
   \<and> flat_loop (Suc n) self (ListIter (PNone # rest)) st = flat_loop n self (ListIter rest) st"
proof (intro conjI impI)
  let ?e1 = "Element t [PNone, PStr ''x''] []"
  let ?e2 = "Element t [PStr ''x''] []"
  have c1: "Tag_call t [PNone, PStr ''x''] [(''class_'', ANone)] = Inr ?e1"
    by (simp add: Tag_call_def Element_init_def dict_of_pairs_def dict_update_def)
  have c2: "Tag_call t [PStr ''x''] [] = Inr ?e2"
    by (simp add: Tag_call_def Element_init_def dict_of_pairs_def dict_update_def)
  have f: "fragments ?e1 = fragments ?e2" by simp
  obtain n1 where n1: "\<forall>n\<ge>n1. \<forall>st. Element_iter n ?e1 st = Some (yield_all (fragments ?e1) st)"
    using plain_element_iter [of ?e1] by auto
  obtain n2 where n2: "\<forall>n\<ge>n2. \<forall>st. Element_iter n ?e2 st = Some (yield_all (fragments ?e2) st)"
    using plain_element_iter [of ?e2] by auto
  have "consume k n ?e1 gs = consume k n ?e2 gs \<and> consume k n ?e2 gs \<noteq> None \<and>
             Element_str n ?e1 gs = Element_str n ?e2 gs \<and>
             Element_str n ?e2 gs = Some (Inr (concat (fragments ?e2)))"
    if "n \<ge> max n1 n2" for n k gs
  proof -
    have a: "\<forall>st. Element_iter n ?e1 st = Some (yield_all (fragments ?e1) st)"
      using n1 that by simp
    have b: "\<forall>st. Element_iter n ?e2 st = Some (yield_all (fragments ?e2) st)"
      using n2 that by simp
    have c: "consume k n ?e1 gs = consume k n ?e2 gs" "consume k n ?e2 gs \<noteq> None" for k
      using consume_plain [OF a, of k gs] consume_plain [OF b, of k gs] f by simp_all
    have d: "Element_str n ?e2 gs = Some (Inr (concat (fragments ?e2)))"
      using consume_plain [OF b, of None gs]
      by (simp add: Element_str_def Element_list_def yield_all_None del: fragments.simps)
    show ?thesis using c d by (simp add: Element_str_def Element_list_def del: fragments.simps)
  qed
  then show "\<exists>e1 e2. Tag_call t [PNone, PStr ''x''] [(''class_'', ANone)] = Inr e1 \<and>
        Tag_call t [PStr ''x''] [] = Inr e2 \<and> attributes e1 = [] \<and>
        (\<exists>n0. \<forall>n\<ge>n0. \<forall>k gs. consume k n e1 gs = consume k n e2 gs \<and> consume k n e2 gs \<noteq> None \<and>
             Element_str n e1 gs = Element_str n e2 gs \<and>
             Element_str n e2 gs = Some (Inr (concat (fragments e2))))"
    using c1 c2 by (intro exI [of _ ?e1] exI [of _ ?e2] conjI exI [of _ "max n1 n2"]) auto
next
  assume "Element_init args kwargs = Inr e"
  from Element_init_attributes(1) [OF this]
  show "ANone \<notin> snd ` set (attributes e)" by fastforce
next
  show "flat_loop (Suc n) self (ListIter (PNone # rest)) st = flat_loop n self (ListIter rest) st"
    by (simp add: flat_loop.simps(2))
qed

theorem None_is_dropped_witness:
  "ANone \<notin> snd ` set (attributes (Element \<lparr>name = ''p'', options = []\<rparr> [PNone, PStr ''x''] []))"
  using None_is_dropped
     [of "\<lparr>name = ''p'', options = []\<rparr>" "[PTag \<lparr>name = ''p'', options = []\<rparr>, PNone, PStr ''x'']"
         "[(''class_'', ANone)]" "Element \<lparr>name = ''p'', options = []\<rparr> [PNone, PStr ''x''] []"]
  by (simp add: Element_init_def dict_of_pairs_def dict_update_def)

section \<open>Repeated iteration\<close>

lemma gens_independentI:
  assumes "\<And>st oc st'. f st = Some (oc, st') \<Longrightarrow>
     gens st' = gens st \<and> (\<forall>G. f (st\<lparr>gens := G\<rparr>) = Some (oc, st'\<lparr>gens := G\<rparr>))"
  shows "gens_independent f"
  using assms unfolding gens_independent_def by blast

lemma gens_independentD:
  assumes "gens_independent f" and "f st = Some (oc, st')"
  shows "gens st' = gens st" and "f (st\<lparr>gens := G\<rparr>) = Some (oc, st'\<lparr>gens := G\<rparr>)"
  using assms unfolding gens_independent_def by blast+

lemma yield_gens:
  "yield s st = (oc, st') \<Longrightarrow>
     gens st' = gens st \<and> yield s (st\<lparr>gens := G\<rparr>) = (oc, st'\<lparr>gens := G\<rparr>)"
  by (auto simp: yield_def split: option.splits nat.splits if_splits)

lemma yield_all_gens:
  "yield_all fs st = (oc, st') \<Longrightarrow>
     gens st' = gens st \<and> yield_all fs (st\<lparr>gens := G\<rparr>) = (oc, st'\<lparr>gens := G\<rparr>)"
proof (induction fs arbitrary: st)
  case Nil
  then show ?case by auto
next
  case (Cons f fs)
  obtain o1 s1 where y: "yield f st = (o1, s1)" by (cases "yield f st")
  from yield_gens [OF y, of G] have g: "gens s1 = gens st" "yield f (st\<lparr>gens := G\<rparr>) = (o1, s1\<lparr>gens := G\<rparr>)"
    by auto
  show ?case
  proof (cases o1)
    case Normal
    then have "yield_all fs s1 = (oc, st')" using Cons.prems y by simp
    from Cons.IH [OF this] show ?thesis using g Normal by simp
  next
    case (Raised e)
    then show ?thesis using Cons.prems y g by auto
  next
    case Suspended
    then show ?thesis using Cons.prems y g by auto
  qed
qed

lemma gens_independent_yield: "gens_independent (\<lambda>st. Some (yield s st))"
  by (rule gens_independentI) (use yield_gens in auto)

lemma gens_independent_yield_all: "gens_independent (\<lambda>st. Some (yield_all fs st))"
  by (rule gens_independentI) (use yield_all_gens in auto)

lemma gens_independent_and_then:
  assumes "gens_independent f" and "gens_independent k"
  shows "gens_independent (\<lambda>st. and_then (f st) k)"
proof (rule gens_independentI)
  fix st oc st'
  assume a: "and_then (f st) k = Some (oc, st')"
  then obtain o1 s1 where f: "f st = Some (o1, s1)"
    by (cases "f st") auto
  note f' = gens_independentD [OF assms(1) f]
  show "gens st' = gens st \<and> (\<forall>G. and_then (f (st\<lparr>gens := G\<rparr>)) k = Some (oc, st'\<lparr>gens := G\<rparr>))"
  proof (cases o1)
    case Normal
    then have k: "k s1 = Some (oc, st')" using a f by simp
    note k' = gens_independentD [OF assms(2) k]
    show ?thesis using f' k' Normal by simp
  next
    case (Raised e)
    then show ?thesis using a f f' by auto
  next
    case Suspended
    then show ?thesis using a f f' by auto
  qed
qed

lemma gens_independent_None: "gens_independent (\<lambda>st. None)"
  by (simp add: gens_independent_def)

lemma gens_independent_Some: "gens_independent (\<lambda>st. Some (oc, st))"
  by (simp add: gens_independent_def)

lemma gens_independent_if:
  "(b \<Longrightarrow> gens_independent f) \<Longrightarrow> (\<not> b \<Longrightarrow> gens_independent g) \<Longrightarrow>
     gens_independent (\<lambda>st. if b then f st else g st)"
  by (cases b) simp_all

lemma emit_child_other:
  "\<not> is_str_or_RawString v \<Longrightarrow> emit_child (Suc n) self v = (\<lambda>st. None)"
  by (cases v) (auto simp: emit_child.simps(2))

lemma static_gens_independent:
  "(\<forall>self. static_element self \<longrightarrow> gens_independent (Element_iter n self)) \<and>
   (\<forall>self v. static_element self \<longrightarrow> static v \<longrightarrow> gens_independent (flat_children n self v)) \<and>
   (\<forall>self xs. static_element self \<longrightarrow> (\<forall>x \<in> set xs. static x) \<longrightarrow>
       gens_independent (flat_loop n self (ListIter xs))) \<and>
   (\<forall>self v. static_element self \<longrightarrow> static v \<longrightarrow> gens_independent (emit_child n self v))"
proof (induction n)
  case 0
  show ?case by (simp add: gens_independent_None)
next
  case (Suc n)
  have E: "\<And>self. static_element self \<Longrightarrow> gens_independent (Element_iter n self)"
    and C: "\<And>self v. static_element self \<Longrightarrow> static v \<Longrightarrow> gens_independent (flat_children n self v)"
    and L: "\<And>self xs. static_element self \<Longrightarrow> (\<forall>x \<in> set xs. static x) \<Longrightarrow>
       gens_independent (flat_loop n self (ListIter xs))"
    and M: "\<And>self v. static_element self \<Longrightarrow> static v \<Longrightarrow> gens_independent (emit_child n self v)"
    using Suc by blast+
  have 1: "gens_independent (Element_iter (Suc n) self)" if s: "static_element self" for self
  proof -
    have "Element_iter (Suc n) self = (\<lambda>st.
     and_then (Some (yield (''<'' @ name (tag self)) st)) (\<lambda>st.
     and_then (Some (yield_all (map attribute_fragment (attributes self)) st)) (\<lambda>st.
       if children self \<noteq> [] then
         and_then (Some (yield ''>'' st)) (\<lambda>st.
         and_then (flat_children n self PNone st) (\<lambda>st.
         Some (yield (''</'' @ name (tag self) @ ''>'') st)))
       else if option_get (tag self) ''shorten_empty_tag'' True then
         Some (yield '' />'' st)
       else
         Some (yield (''></'' @ name (tag self) @ ''>'') st))))"
      by (rule ext) (simp add: Element_iter.simps(2))
    moreover have "gens_independent \<dots>"
      by (intro gens_independent_and_then gens_independent_yield gens_independent_yield_all
          gens_independent_if C s) simp
    ultimately show ?thesis by simp
  qed
  have 2: "gens_independent (flat_children (Suc n) self v)"
    if s: "static_element self" and v: "static v" for self v
  proof -
    have cs: "\<forall>x \<in> set (children self). static x" using s by (cases self) simp
    show ?thesis
    proof (cases "truthy v")
      case False
      then have "flat_children (Suc n) self v = flat_loop n self (ListIter (children self))"
        by (intro ext) (simp add: flat_children.simps(2))
      then show ?thesis using L [OF s cs] by simp
    next
      case True
      show ?thesis
      proof (cases v)
        case (PList xs)
        then have "flat_children (Suc n) self v = flat_loop n self (ListIter xs)"
          using True by (intro ext) (simp add: flat_children.simps(2))
        then show ?thesis using L [OF s] v PList by simp
      next
        case (PDict d)
        then have "flat_children (Suc n) self v = flat_loop n self (ListIter (map (\<lambda>(k, v). PStr k) d))"
          using True by (intro ext) (simp add: flat_children.simps(2))
        moreover have "\<forall>x \<in> set (map (\<lambda>(k, v). PStr k) d). static x" by auto
        ultimately show ?thesis using L [OF s] by simp
      next
        case (PStr x)
        then have "flat_children (Suc n) self v = flat_loop n self (ListIter (map (\<lambda>c. PStr [c]) x))"
          using True by (intro ext) (simp add: flat_children.simps(2))
        moreover have "\<forall>y \<in> set (map (\<lambda>c. PStr [c]) x). static y" by auto
        ultimately show ?thesis using L [OF s] by simp
      next
        case (PRaw fs)
        then have "flat_children (Suc n) self v = flat_loop n self (ListIter (map PStr fs))"
          using True by (intro ext) (simp add: flat_children.simps(2))
        moreover have "\<forall>y \<in> set (map PStr fs). static y" by auto
        ultimately show ?thesis using L [OF s] by simp
      next
        case (PInt i)
        then have "flat_children (Suc n) self v = (\<lambda>st. Some (Raised (TypeError '''int' object is not iterable''), st))"
          using True by (intro ext) (simp add: flat_children.simps(2))
        then show ?thesis by (simp add: gens_independent_Some)
      next
        case (PTag t)
        then have "flat_children (Suc n) self v = (\<lambda>st. Some (Raised (TypeError '''Tag' object is not iterable''), st))"
          using True by (intro ext) (simp add: flat_children.simps(2))
        then show ?thesis by (simp add: gens_independent_Some)
      next
        case (PElem e)
        then have "flat_children (Suc n) self v = (\<lambda>st. None)"
          using True by (intro ext) (simp add: flat_children.simps(2))
        then show ?thesis by (simp add: gens_independent_None)
      qed (use v True in auto)
    qed
  qed
  have 3: "gens_independent (flat_loop (Suc n) self (ListIter xs))"
    if s: "static_element self" and xs: "\<forall>x \<in> set xs. static x" for self xs
  proof (cases xs)
    case Nil
    then have "flat_loop (Suc n) self (ListIter xs) = (\<lambda>st. Some (Normal, st))"
      by (intro ext) (simp add: flat_loop.simps(2))
    then show ?thesis by (simp add: gens_independent_Some)
  next
    case (Cons x ys)
    have x: "static x" and ys: "\<forall>y \<in> set ys. static y" using xs Cons by auto
    have "flat_loop (Suc n) self (ListIter xs) = (\<lambda>st.
          if is_str_or_RawString x then
            and_then (emit_child n self x st) (flat_loop n self (ListIter ys))
          else if \<not> is_None x then
            and_then (flat_children n self x st) (flat_loop n self (ListIter ys))
          else flat_loop n self (ListIter ys) st)"
      using Cons by (intro ext) (simp add: flat_loop.simps(2))
    moreover have "gens_independent \<dots>"
      by (intro gens_independent_if gens_independent_and_then M C L s x ys)
    ultimately show ?thesis by simp
  qed
  have 4: "gens_independent (emit_child (Suc n) self v)"
    if s: "static_element self" and v: "static v" for self v
  proof (cases v)
    case (PStr x)
    have "emit_child (Suc n) self v = (\<lambda>st.
          if option_get (tag self) ''cdata_section'' False then
            and_then (Some (yield ''<![CDATA['' st)) (\<lambda>st.
            and_then (Some (yield x st)) (\<lambda>st.
            Some (yield '']]>'' st)))
          else Some (yield (cgi_escape False x) st))"
      using PStr by (intro ext) (simp add: emit_child.simps(2))
    moreover have "gens_independent \<dots>"
      by (intro gens_independent_if gens_independent_and_then gens_independent_yield)
    ultimately show ?thesis by simp
  next
    case (PRaw fs)
    then have "emit_child (Suc n) self v = (\<lambda>st. Some (yield_all fs st))"
      by (intro ext) (simp add: emit_child.simps(2))
    then show ?thesis by (simp add: gens_independent_yield_all)
  next
    case (PElem e)
    then have "emit_child (Suc n) self v = Element_iter n e"
      by (intro ext) (simp add: emit_child.simps(2))
    then show ?thesis using E [of e] v PElem by simp
  qed (simp_all add: emit_child_other gens_independent_None)
  show ?case using 1 2 3 4 by blast
qed


lemma consume_mono: "n \<le> m \<Longrightarrow> consume k n e gs = Some r \<Longrightarrow> consume k m e gs = Some r"
  by (auto simp: consume_def intro: Element_iter_mono split: if_splits)

lemma consume_static:
  assumes "static_element e" and "consume k n e gs = Some (oc, st)"
  shows "gens st = gs" and "consume k n e gs' = Some (oc, st\<lparr>gens := gs'\<rparr>)"
proof -
  have i: "gens_independent (Element_iter n e)"
    using static_gens_independent assms(1) by blast
  show "gens st = gs"
    using assms(2) gens_independentD(1) [OF i, of "\<lparr>gens = gs, out = [], wanted = k\<rparr>" oc st]
    by (auto simp: consume_def split: if_splits)
  show "consume k n e gs' = Some (oc, st\<lparr>gens := gs'\<rparr>)"
    using assms(2) gens_independentD(2) [OF i, of "\<lparr>gens = gs, out = [], wanted = k\<rparr>" oc st gs']
    by (auto simp: consume_def split: if_splits)
qed

lemma consume_static_unique:
  assumes "static_element e" and "consume k n e gs = Some (oc, st)"
    and "consume k m e gs' = Some (oc', st')"
  shows "oc' = oc \<and> out st' = out st"
proof (cases "n \<le> m")
  case True
  have "consume k m e gs = Some (oc, st)" using consume_mono [OF True assms(2)] .
  from consume_static(2) [OF assms(1) this, of gs'] assms(3) show ?thesis by auto
next
  case False
  then have "m \<le> n" by simp
  have "consume k n e gs' = Some (oc', st')" using consume_mono [OF \<open>m \<le> n\<close> assms(3)] .
  from consume_static(2) [OF assms(1) this, of gs] assms(2) show ?thesis by auto
qed

lemma Element_list_consume:
  assumes "Element_list n e gs = Some r"
  obtains oc st where "consume None n e gs = Some (oc, st)"
    and "r = (case oc of Raised err \<Rightarrow> Inl err | _ \<Rightarrow> Inr (out st))"
proof (cases "consume None n e gs")
  case None
  then show ?thesis using assms by (simp add: Element_list_def)
next
  case (Some p)
  obtain oc st where p: "p = (oc, st)" by (cases p)
  have "r = (case oc of Raised err \<Rightarrow> Inl err | _ \<Rightarrow> Inr (out st))"
    using assms Some p by (cases oc) (simp_all add: Element_list_def)
  then show ?thesis using that Some p by simp
qed

lemma digits_7: "digits 7 = ''7''"
  by code_simp

text \<open>
  C10. For an Element whose child tree holds no generator object (strings, RawStrings,
  Elements, lists and other values that can be iterated again), iteration leaves the
  progress of every generator object as it was and does not depend on it; so any two
  iterations that return, from whatever state and with whatever bound on the steps, end the
  same way with the same fragments, \<open>list\<close> and \<open>"".join\<close> give the same result
  each time, and for plain children the fragments are \<open>fragments e\<close>, a function of the
  Element alone. The Element is a value, as in the source, where \<open>__iter__\<close> and
  \<open>flat_children\<close> assign to no field of \<open>self\<close>.
\<close>

theorem serialization_repeatable:
  assumes "static_element e"
  shows "(\<forall>k n gs oc st. consume k n e gs = Some (oc, st) \<longrightarrow>
            gens st = gs \<and> (\<forall>gs'. consume k n e gs' = Some (oc, st\<lparr>gens := gs'\<rparr>)))
       \<and> (\<forall>k n m gs gs' oc st oc' st'.
            consume k n e gs = Some (oc, st) \<and> consume k m e gs' = Some (oc', st') \<longrightarrow>
            oc' = oc \<and> out st' = out st)
       \<and> (\<forall>n m gs gs' r r'.
            Element_list n e gs = Some r \<and> Element_list m e gs' = Some r' \<longrightarrow> r' = r)
       \<and> (\<forall>n m gs gs' r r'.
            Element_str n e gs = Some r \<and> Element_str m e gs' = Some r' \<longrightarrow> r' = r)
       \<and> (plain_element e \<longrightarrow>
            (\<exists>n0. \<forall>n\<ge>n0. \<forall>gs. Element_list n e gs = Some (Inr (fragments e))))"
proof -
  have 1: "\<forall>k n gs oc st. consume k n e gs = Some (oc, st) \<longrightarrow>
            gens st = gs \<and> (\<forall>gs'. consume k n e gs' = Some (oc, st\<lparr>gens := gs'\<rparr>))"
    using consume_static [OF assms] by blast
  have 2: "\<forall>k n m gs gs' oc st oc' st'.
            consume k n e gs = Some (oc, st) \<and> consume k m e gs' = Some (oc', st') \<longrightarrow>
            oc' = oc \<and> out st' = out st"
    using consume_static_unique [OF assms] by blast
  have 3: "r' = r" if h1: "Element_list n e gs = Some r" and h2: "Element_list m e gs' = Some r'" for n m gs gs' r r'
  proof -
    obtain oc st where a: "consume None n e gs = Some (oc, st)"
      "r = (case oc of Raised err \<Rightarrow> Inl err | _ \<Rightarrow> Inr (out st))"
      by (rule Element_list_consume [OF h1])
    obtain oc' st' where b: "consume None m e gs' = Some (oc', st')"
      "r' = (case oc' of Raised err \<Rightarrow> Inl err | _ \<Rightarrow> Inr (out st'))"
      by (rule Element_list_consume [OF h2])
    from consume_static_unique [OF assms a(1) b(1)] a(2) b(2) show ?thesis
      by (cases oc) simp_all
  qed
  have 4: "r' = r" if h3: "Element_str n e gs = Some r" and h4: "Element_str m e gs' = Some r'" for n m gs gs' r r'
  proof -
    obtain l where l: "Element_list n e gs = Some l"
      "r = (case l of Inl err \<Rightarrow> Inl err | Inr frags \<Rightarrow> Inr (concat frags))"
      using h3 by (auto simp: Element_str_def split: option.splits sum.splits)
    obtain l' where l': "Element_list m e gs' = Some l'"
      "r' = (case l' of Inl err \<Rightarrow> Inl err | Inr frags \<Rightarrow> Inr (concat frags))"
      using h4 by (auto simp: Element_str_def split: option.splits sum.splits)
    from 3 [OF l(1) l'(1)] l(2) l'(2) show ?thesis by simp
  qed
  have 5: "plain_element e \<longrightarrow>
            (\<exists>n0. \<forall>n\<ge>n0. \<forall>gs. Element_list n e gs = Some (Inr (fragments e)))"
    using Element_list_plain by blast
  have l3: "\<forall>n m gs gs' r r'.
            Element_list n e gs = Some r \<and> Element_list m e gs' = Some r' \<longrightarrow> r' = r"
    using 3 by blast
  have l4: "\<forall>n m gs gs' r r'.
            Element_str n e gs = Some r \<and> Element_str m e gs' = Some r' \<longrightarrow> r' = r"
    using 4 by blast
  show ?thesis by (intro conjI 1 2 l3 l4 5)
qed

theorem serialization_repeatable_witness:
  \<open>\<exists>n0. \<forall>n\<ge>n0. \<forall>gs.
     Element_list n (Element \<lparr>name = ''p'', options = []\<rparr> [PList [PStr ''a'', PRaw [''<br />'']]]
                       [(''id'', AInt 7)]) gs =
       Some (Inr [''<p'', '' id="7"'', ''>'', ''a'', ''<br />'', ''</p>''])\<close>
  using serialization_repeatable
    [of "Element \<lparr>name = ''p'', options = []\<rparr> [PList [PStr ''a'', PRaw [''<br />'']]]
                       [(''id'', AInt 7)]",
     THEN conjunct2, THEN conjunct2, THEN conjunct2, THEN conjunct2]
  by (simp add: option_get_def cgi_escape_def str_replace_def text_fragments_def
      attribute_fragment_def digits_7)

section \<open>Generators among the children\<close>

lemma flat_loop_Item:
  "iter_next it st = (Item child, it', st') \<Longrightarrow>
     flat_loop (Suc n) self it st = and_then (loop_body n self child st') (flat_loop n self it')"
  by (simp add: flat_loop.simps(2) loop_body_def)

lemma yield_all_not_Raised: "yield_all fs st \<noteq> (Raised e, st')"
proof (induction fs arbitrary: st)
  case Nil
  show ?case by simp
next
  case (Cons f fs)
  show ?case using Cons.IH
    by (auto simp: yield_def split: option.splits nat.splits if_splits prod.splits outcome.splits)
qed

lemma plain_item:
  assumes "plain v"
  obtains n where "\<And>self st m. n \<le> m \<Longrightarrow>
     loop_body m self v st = Some (yield_all (child_fragments (cdata self) v) st)"
proof -
  obtain n where n: "\<And>self st. loop_body n self v st = Some (yield_all (child_fragments (cdata self) v) st)"
    using plain_fragments(1) [of v] assms by blast
  have "loop_body m self v st = Some (yield_all (child_fragments (cdata self) v) st)"
    if "n \<le> m" for self st m
    using loop_body_mono [OF that n] .
  then show ?thesis using that by blast
qed

lemma flat_loop_prefix_Normal:
  assumes "\<forall>v \<in> set pre. plain v"
    and "yield_all (concat (map (child_fragments (cdata self)) pre)) st = (Normal, st1)"
    and "flat_loop n self (ListIter rest) st1 = Some r"
  shows "\<exists>n'. flat_loop n' self (ListIter (pre @ rest)) st = Some r"
  using assms
proof (induction pre arbitrary: st)
  case Nil
  then show ?case by auto
next
  case (Cons v pre)
  obtain o2 st2 where y: "yield_all (child_fragments (cdata self) v) st = (o2, st2)"
    by (cases "yield_all (child_fragments (cdata self) v) st")
  have o2: "o2 = Normal" and y2: "yield_all (concat (map (child_fragments (cdata self)) pre)) st2 = (Normal, st1)"
    using Cons.prems(2) y by (cases o2; simp add: yield_all_append)+
  obtain n2 where n2: "flat_loop n2 self (ListIter (pre @ rest)) st2 = Some r"
    using Cons.IH [OF _ y2 Cons.prems(3)] Cons.prems(1) by auto
  obtain n1 where n1: "\<And>self st m. n1 \<le> m \<Longrightarrow>
     loop_body m self v st = Some (yield_all (child_fragments (cdata self) v) st)"
    using plain_item [of v] Cons.prems(1) by auto
  let ?m = "max n1 n2"
  have "flat_loop (Suc ?m) self (ListIter ((v # pre) @ rest)) st = Some r"
    using n1 [of ?m self st] flat_loop_mono [OF _ n2, of ?m] y o2
    by (simp add: flat_loop_Cons)
  then show ?case by blast
qed

lemma flat_loop_prefix_stop:
  assumes "\<forall>v \<in> set pre. plain v"
    and "yield_all (concat (map (child_fragments (cdata self)) pre)) st = (oc, st1)"
    and "oc \<noteq> Normal"
  shows "\<exists>n'. flat_loop n' self (ListIter (pre @ rest)) st = Some (oc, st1)"
  using assms
proof (induction pre arbitrary: st)
  case Nil
  then show ?case by auto
next
  case (Cons v pre)
  obtain o2 st2 where y: "yield_all (child_fragments (cdata self) v) st = (o2, st2)"
    by (cases "yield_all (child_fragments (cdata self) v) st")
  obtain n1 where n1: "\<And>self st m. n1 \<le> m \<Longrightarrow>
     loop_body m self v st = Some (yield_all (child_fragments (cdata self) v) st)"
    using plain_item [of v] Cons.prems(1) by auto
  show ?case
  proof (cases "o2 = Normal")
    case True
    then have y2: "yield_all (concat (map (child_fragments (cdata self)) pre)) st2 = (oc, st1)"
      using Cons.prems(2) y by (simp add: yield_all_append)
    obtain n2 where n2: "flat_loop n2 self (ListIter (pre @ rest)) st2 = Some (oc, st1)"
      using Cons.IH [OF _ y2 Cons.prems(3)] Cons.prems(1) by auto
    let ?m = "max n1 n2"
    have "flat_loop (Suc ?m) self (ListIter ((v # pre) @ rest)) st = Some (oc, st1)"
      using n1 [of ?m self st] flat_loop_mono [OF _ n2, of ?m] y True
      by (simp add: flat_loop_Cons)
    then show ?thesis by blast
  next
    case False
    then have e: "(o2, st2) = (oc, st1)"
      using Cons.prems(2) y by (cases o2) (simp_all add: yield_all_append)
    have "o2 = Suspended" using False y yield_all_not_Raised by (cases o2) auto
    then have "flat_loop (Suc n1) self (ListIter ((v # pre) @ rest)) st = Some (oc, st1)"
      using n1 [of n1 self st] y e by (simp add: flat_loop_Cons)
    then show ?thesis by blast
  qed
qed

lemma Element_iter_children:
  assumes "children e \<noteq> []"
  shows "Element_iter (Suc (Suc n)) e st =
    and_then (Some (yield_all (open_tag e) st)) (\<lambda>st.
    and_then (flat_loop n e (ListIter (children e)) st) (\<lambda>st.
    Some (yield (''</'' @ name (tag e) @ ''>'') st)))"
  using assms
  by (simp add: Element_iter.simps(2) flat_children.simps(2) open_tag_def
      and_then_yield_all_yield and_then_yield_assoc del: yield_all.simps)

lemma gen_fragments_0 [simp]: "gen_fragments cd f p 0 = []"
  by (simp add: gen_fragments_def)

lemma gen_fragments_Suc:
  "gen_fragments cd f p (Suc m) = child_fragments cd (f p) @ gen_fragments cd f (Suc p) m"
proof -
  have "[p ..< p + Suc m] = p # [Suc p ..< Suc p + m]"
    using upt_conv_Cons [of p "p + Suc m"] by simp
  then show ?thesis unfolding gen_fragments_def by simp
qed

lemma length_gen_fragments:
  "(\<And>i. child_fragments cd (f i) \<noteq> []) \<Longrightarrow> m \<le> length (gen_fragments cd f p m)"
proof (induction m arbitrary: p)
  case 0
  show ?case by simp
next
  case (Suc m)
  have "length (child_fragments cd (f p)) \<ge> 1"
    using Suc.prems [of p] by (cases "child_fragments cd (f p)") auto
  moreover have "m \<le> length (gen_fragments cd f (Suc p) m)"
    using Suc.IH Suc.prems by blast
  ultimately show ?case by (simp add: gen_fragments_Suc)
qed

lemma flat_loop_generator:
  assumes nxt: "\<And>st. gens st g < N \<Longrightarrow>
      iter_next it st = (Item (f (gens st g)), it, st\<lparr>gens := (gens st)(g := Suc (gens st g))\<rparr>)"
    and items: "\<And>i. i < N \<Longrightarrow> plain (f i) \<and> child_fragments (cdata self) (f i) \<noteq> []"
  shows "wanted st = Some k \<Longrightarrow> 0 < k \<Longrightarrow>
     k \<le> length (gen_fragments (cdata self) f (gens st g) (N - gens st g)) \<Longrightarrow>
     \<exists>n m. 0 < m \<and> gens st g + m \<le> N \<and>
        k \<le> length (gen_fragments (cdata self) f (gens st g) m) \<and>
        length (gen_fragments (cdata self) f (gens st g) (m - 1)) < k \<and>
        flat_loop n self it st =
          Some (Suspended, st\<lparr>gens := (gens st)(g := gens st g + m),
                               out := out st @ take k (gen_fragments (cdata self) f (gens st g) m),
                               wanted := Some 0\<rparr>)"
proof (induction k arbitrary: st rule: less_induct)
  case (less k)
  let ?cd = "cdata self"
  let ?p = "gens st g"
  let ?F0 = "child_fragments ?cd (f ?p)"
  have pN: "?p < N"
  proof (rule ccontr)
    assume "\<not> ?p < N"
    then have "N - ?p = 0" by simp
    then show False using less.prems(2,3) by simp
  qed
  then obtain d where d: "N - ?p = Suc d" "N - Suc ?p = d"
    by (cases "N - ?p") auto
  let ?st1 = "st\<lparr>gens := (gens st)(g := Suc ?p)\<rparr>"
  have nx: "iter_next it st = (Item (f ?p), it, ?st1)" using nxt [OF pN] .
  have pl: "plain (f ?p)" and ne: "?F0 \<noteq> []" using items [OF pN] by auto
  obtain n1 where n1: "\<And>self st m. n1 \<le> m \<Longrightarrow>
     loop_body m self (f ?p) st = Some (yield_all (child_fragments (cdata self) (f ?p)) st)"
    using plain_item [OF pl] by blast
  have w1: "wanted ?st1 = Some k" using less.prems(1) by simp
  show ?case
  proof (cases "k \<le> length ?F0")
    case True
    have y: "yield_all ?F0 ?st1 = (Suspended, ?st1\<lparr>out := out ?st1 @ take k ?F0, wanted := Some 0\<rparr>)"
      using yield_all_stop [OF w1 True ne] .
    have "flat_loop (Suc n1) self it st =
        Some (Suspended, ?st1\<lparr>out := out ?st1 @ take k ?F0, wanted := Some 0\<rparr>)"
      using n1 [of n1 self ?st1] y by (simp add: flat_loop_Item [OF nx])
    then have "flat_loop (Suc n1) self it st =
        Some (Suspended, st\<lparr>gens := (gens st)(g := ?p + 1),
                               out := out st @ take k (gen_fragments ?cd f ?p 1),
                               wanted := Some 0\<rparr>)"
      by (simp add: gen_fragments_Suc [of ?cd f ?p 0, simplified])
    moreover have "k \<le> length (gen_fragments ?cd f ?p 1)"
      using True by (simp add: gen_fragments_Suc [of ?cd f ?p 0, simplified])
    moreover have "?p + 1 \<le> N" using pN by simp
    moreover have "length (gen_fragments ?cd f ?p (1 - 1)) < k" using less.prems(2) by simp
    ultimately show ?thesis by (rule_tac x = "Suc n1" in exI, rule_tac x = "1::nat" in exI) (simp add: fun_upd_def)
  next
    case False
    then have lt: "length ?F0 < k" by simp
    let ?k' = "k - length ?F0"
    let ?st2 = "?st1\<lparr>out := out ?st1 @ ?F0, wanted := Some ?k'\<rparr>"
    have y: "yield_all ?F0 ?st1 = (Normal, ?st2)"
      using yield_all_more [OF w1 lt] .
    have k': "?k' < k" "0 < ?k'" using lt ne by (cases ?F0; simp)+
    have g2: "gens ?st2 g = Suc ?p" by simp
    have split: "gen_fragments ?cd f ?p (N - ?p) = ?F0 @ gen_fragments ?cd f (Suc ?p) (N - Suc ?p)"
      using d by (simp add: gen_fragments_Suc)
    have en: "?k' \<le> length (gen_fragments ?cd f (gens ?st2 g) (N - gens ?st2 g))"
      using less.prems(3) split lt by (simp add: g2)
    have w2: "wanted ?st2 = Some ?k'" by simp
    from less.IH [OF k'(1) w2 k'(2) en]
    obtain n2 m2 where m2: "0 < m2" "Suc ?p + m2 \<le> N"
      "?k' \<le> length (gen_fragments ?cd f (Suc ?p) m2)"
      "length (gen_fragments ?cd f (Suc ?p) (m2 - 1)) < ?k'"
      and r2: "flat_loop n2 self it ?st2 =
          Some (Suspended, ?st2\<lparr>gens := (gens ?st2)(g := Suc ?p + m2),
                               out := out ?st2 @ take ?k' (gen_fragments ?cd f (Suc ?p) m2),
                               wanted := Some 0\<rparr>)"
      unfolding g2 by blast
    let ?n = "max n1 n2"
    have r: "flat_loop (Suc ?n) self it st =
          Some (Suspended, ?st2\<lparr>gens := (gens ?st2)(g := Suc ?p + m2),
                               out := out ?st2 @ take ?k' (gen_fragments ?cd f (Suc ?p) m2),
                               wanted := Some 0\<rparr>)"
      using n1 [of ?n self ?st1] y flat_loop_mono [OF _ r2, of ?n]
      by (simp add: flat_loop_Item [OF nx])
    have tk: "take k (gen_fragments ?cd f ?p (Suc m2)) =
        ?F0 @ take ?k' (gen_fragments ?cd f (Suc ?p) m2)"
      using lt by (simp add: gen_fragments_Suc)
    have "flat_loop (Suc ?n) self it st =
          Some (Suspended, st\<lparr>gens := (gens st)(g := ?p + Suc m2),
                               out := out st @ take k (gen_fragments ?cd f ?p (Suc m2)),
                               wanted := Some 0\<rparr>)"
      unfolding r tk by simp
    moreover have "k \<le> length (gen_fragments ?cd f ?p (Suc m2))"
      using m2(3) lt by (simp add: gen_fragments_Suc)
    moreover have "length (gen_fragments ?cd f ?p (Suc m2 - 1)) < k"
    proof -
      obtain j where j: "m2 = Suc j" using m2(1) by (cases m2) auto
      show ?thesis using m2(4) lt by (simp add: j gen_fragments_Suc)
    qed
    moreover have "?p + Suc m2 \<le> N" using m2(2) by simp
    ultimately show ?thesis by (rule_tac x = "Suc (max n1 n2)" in exI, rule_tac x = "Suc m2" in exI) (simp add: fun_upd_def)
  qed
qed

lemma yield_all_append_Normal:
  assumes "yield_all (xs @ ys) st = (Normal, st2)"
  obtains st1 where "yield_all xs st = (Normal, st1)" and "yield_all ys st1 = (Normal, st2)"
proof -
  obtain o1 st1 where y: "yield_all xs st = (o1, st1)" by (cases "yield_all xs st")
  have "o1 = Normal" using assms y by (cases o1) (simp_all add: yield_all_append)
  then show ?thesis using that assms y by (simp add: yield_all_append)
qed

lemma open_tag_not_Nil: "open_tag e \<noteq> []"
  by (simp add: open_tag_def)

lemma lazy_generator_child:
  fixes e :: element and pre :: "pyval list"
  defines "H \<equiv> open_tag e @ concat (map (child_fragments (cdata e)) pre)"
  assumes ch: "children e = pre @ c # post"
    and pre: "\<forall>v \<in> set pre. plain v"
    and c: "\<not> is_str_or_RawString c" "\<not> is_None c" "truthy c" "py_iter c = Some (Inr it)"
    and nxt: "\<And>st. gens st g < N \<Longrightarrow>
      iter_next it st = (Item (f (gens st g)), it, st\<lparr>gens := (gens st)(g := Suc (gens st g))\<rparr>)"
    and items: "\<And>i. i < N \<Longrightarrow> plain (f i) \<and> child_fragments (cdata e) (f i) \<noteq> []"
    and avail: "k \<le> length H + length (gen_fragments (cdata e) f (gs g) (N - gs g))"
  shows "\<exists>n0 m. (\<forall>n\<ge>n0. consume (Some k) n e gs =
            Some (Suspended, \<lparr>gens = gs(g := gs g + m),
                               out = take k (H @ gen_fragments (cdata e) f (gs g) m),
                               wanted = Some 0\<rparr>))
          \<and> gs g + m \<le> max N (gs g)
          \<and> (k \<le> length H \<longrightarrow> m = 0)
          \<and> (length H < k \<longrightarrow> 0 < m
                \<and> length H + length (gen_fragments (cdata e) f (gs g) (m - 1)) < k
                \<and> k \<le> length H + length (gen_fragments (cdata e) f (gs g) m))"
proof -
  let ?cd = "cdata e"
  let ?st0 = "\<lparr>gens = gs, out = [], wanted = Some k\<rparr>"
  have ne: "children e \<noteq> []" using ch by simp
  have Hne: "H \<noteq> []" by (simp add: H_def open_tag_not_Nil)
  have main: "\<exists>n m. (k = 0 \<or> Element_iter n e ?st0 =
            Some (Suspended, \<lparr>gens = gs(g := gs g + m),
                               out = take k (H @ gen_fragments ?cd f (gs g) m),
                               wanted = Some 0\<rparr>))
          \<and> gs g + m \<le> max N (gs g)
          \<and> (k \<le> length H \<longrightarrow> m = 0)
          \<and> (length H < k \<longrightarrow> 0 < m
                \<and> length H + length (gen_fragments ?cd f (gs g) (m - 1)) < k
                \<and> k \<le> length H + length (gen_fragments ?cd f (gs g) m))"
  proof (cases "k \<le> length H")
    case True
    let ?R = "?st0\<lparr>out := out ?st0 @ take k H, wanted := Some 0\<rparr>"
    have y: "yield_all H ?st0 = (Suspended, ?R)"
      using yield_all_stop [of ?st0 k H] True Hne by simp
    obtain o1 s1 where y1: "yield_all (open_tag e) ?st0 = (o1, s1)"
      by (cases "yield_all (open_tag e) ?st0")
    have "\<exists>n. Element_iter n e ?st0 = Some (Suspended, ?R)"
    proof (cases "o1 = Normal")
      case True
      then have "yield_all (concat (map (child_fragments ?cd) pre)) s1 = (Suspended, ?R)"
        using y y1 by (simp add: H_def yield_all_append)
      from flat_loop_prefix_stop [OF pre this, of "c # post"]
      obtain n' where "flat_loop n' e (ListIter (children e)) s1 = Some (Suspended, ?R)"
        using ch by auto
      then have "Element_iter (Suc (Suc n')) e ?st0 = Some (Suspended, ?R)"
        using y1 True by (simp add: Element_iter_children [OF ne])
      then show ?thesis by blast
    next
      case False
      then have "(o1, s1) = (Suspended, ?R)"
        using y y1 by (cases o1) (simp_all add: H_def yield_all_append)
      then have "Element_iter (Suc (Suc 0)) e ?st0 = Some (Suspended, ?R)"
        using y1 by (simp add: Element_iter_children [OF ne])
      then show ?thesis by blast
    qed
    then obtain n where "Element_iter n e ?st0 = Some (Suspended, ?R)" by blast
    then show ?thesis using True
      by (rule_tac x = n in exI, rule_tac x = 0 in exI) simp
  next
    case False
    then have lt: "length H < k" by simp
    let ?k' = "k - length H"
    let ?s2 = "?st0\<lparr>out := out ?st0 @ H, wanted := Some ?k'\<rparr>"
    have y: "yield_all H ?st0 = (Normal, ?s2)"
      using yield_all_more [of ?st0 k H] lt by simp
    have y': "yield_all (open_tag e @ concat (map (child_fragments ?cd) pre)) ?st0 = (Normal, ?s2)"
      using y by (simp only: H_def)
    obtain s1 where y1: "yield_all (open_tag e) ?st0 = (Normal, s1)"
      and y2: "yield_all (concat (map (child_fragments ?cd) pre)) s1 = (Normal, ?s2)"
      by (rule yield_all_append_Normal [OF y'])
    have w: "wanted ?s2 = Some ?k'" and kp: "0 < ?k'" and g2: "gens ?s2 g = gs g"
      using lt by simp_all
    have av: "?k' \<le> length (gen_fragments ?cd f (gens ?s2 g) (N - gens ?s2 g))"
      using avail lt by simp
    note G = flat_loop_generator [of g N it f e ?s2 ?k', OF nxt items w kp av, unfolded g2]
    have "\<exists>n m. 0 < m \<and> gs g + m \<le> N \<and>
      ?k' \<le> length (gen_fragments ?cd f (gs g) m) \<and>
      length (gen_fragments ?cd f (gs g) (m - 1)) < ?k' \<and>
      flat_loop n e it ?s2 =
          Some (Suspended, ?s2\<lparr>gens := (gens ?s2)(g := gs g + m),
                               out := out ?s2 @ take ?k' (gen_fragments ?cd f (gs g) m),
                               wanted := Some 0\<rparr>)"
      by (rule G)
    then obtain n m where m: "0 < m" "gs g + m \<le> N"
      "?k' \<le> length (gen_fragments ?cd f (gs g) m)"
      "length (gen_fragments ?cd f (gs g) (m - 1)) < ?k'"
      and r: "flat_loop n e it ?s2 =
          Some (Suspended, ?s2\<lparr>gens := (gens ?s2)(g := gs g + m),
                               out := out ?s2 @ take ?k' (gen_fragments ?cd f (gs g) m),
                               wanted := Some 0\<rparr>)"
      by (elim exE conjE)
    let ?R = "?s2\<lparr>gens := (gens ?s2)(g := gs g + m),
                               out := out ?s2 @ take ?k' (gen_fragments ?cd f (gs g) m),
                               wanted := Some 0\<rparr>"
    have "loop_body (Suc n) e c ?s2 = Some (Suspended, ?R)"
      using c r by (simp add: loop_body_def flat_children.simps(2))
    then have "flat_loop (Suc (Suc n)) e (ListIter (c # post)) ?s2 = Some (Suspended, ?R)"
      by (simp add: flat_loop_Cons)
    from flat_loop_prefix_Normal [OF pre y2 this]
    obtain n' where "flat_loop n' e (ListIter (children e)) s1 = Some (Suspended, ?R)"
      using ch by auto
    then have "Element_iter (Suc (Suc n')) e ?st0 = Some (Suspended, ?R)"
      using y1 by (simp add: Element_iter_children [OF ne])
    moreover have "?R = \<lparr>gens = gs(g := gs g + m),
                               out = take k (H @ gen_fragments ?cd f (gs g) m),
                               wanted = Some 0\<rparr>"
      using lt by simp
    ultimately have "Element_iter (Suc (Suc n')) e ?st0 =
        Some (Suspended, \<lparr>gens = gs(g := gs g + m),
                               out = take k (H @ gen_fragments ?cd f (gs g) m),
                               wanted = Some 0\<rparr>)"
      by simp
    then show ?thesis using m lt
      by (rule_tac x = "Suc (Suc n')" in exI, rule_tac x = m in exI) auto
  qed
  then obtain n m where nm: "k = 0 \<or> Element_iter n e ?st0 =
            Some (Suspended, \<lparr>gens = gs(g := gs g + m),
                               out = take k (H @ gen_fragments ?cd f (gs g) m),
                               wanted = Some 0\<rparr>)"
    and rest: "gs g + m \<le> max N (gs g)" "k \<le> length H \<longrightarrow> m = 0"
      "length H < k \<longrightarrow> 0 < m
                \<and> length H + length (gen_fragments ?cd f (gs g) (m - 1)) < k
                \<and> k \<le> length H + length (gen_fragments ?cd f (gs g) m)"
    by blast
  have "consume (Some k) n' e gs =
            Some (Suspended, \<lparr>gens = gs(g := gs g + m),
                               out = take k (H @ gen_fragments ?cd f (gs g) m),
                               wanted = Some 0\<rparr>)" if "n \<le> n'" for n'
  proof (cases "k = 0")
    case True
    then have "m = 0" using rest(2) by simp
    then show ?thesis using True by (simp add: consume_def)
  next
    case False
    then have "Element_iter n e ?st0 =
            Some (Suspended, \<lparr>gens = gs(g := gs g + m),
                               out = take k (H @ gen_fragments ?cd f (gs g) m),
                               wanted = Some 0\<rparr>)"
      using nm by simp
    from Element_iter_mono [OF that this] show ?thesis using False by (simp add: consume_def)
  qed
  then show ?thesis using rest
    by (rule_tac x = n in exI, rule_tac x = m in exI) blast
qed

lemma flat_loop_Gen_None:
  assumes pl: "\<forall>x \<in> set xs. plain x"
  shows "wanted st = None \<Longrightarrow> gens st g = p \<Longrightarrow> p \<le> length xs \<Longrightarrow> d = length xs - p \<Longrightarrow>
     \<exists>n. flat_loop n self (GenIter g xs en) st =
        Some (case en of None \<Rightarrow> Normal | Some msg \<Rightarrow> Raised (UserError msg),
              st\<lparr>gens := (gens st)(g := Suc (length xs)),
                 out := out st @ concat (map (child_fragments (cdata self)) (drop p xs))\<rparr>)"
proof (induction d arbitrary: p st)
  case 0
  then have p: "gens st g = length xs" by simp
  have "flat_loop (Suc 0) self (GenIter g xs en) st =
        Some (case en of None \<Rightarrow> Normal | Some msg \<Rightarrow> Raised (UserError msg),
              st\<lparr>gens := (gens st)(g := Suc (length xs)),
                 out := out st @ concat (map (child_fragments (cdata self)) (drop p xs))\<rparr>)"
    using 0 p by (cases en) (simp_all add: flat_loop.simps(2))
  then show ?case by blast
next
  case (Suc d)
  then have lt: "p < length xs" by simp
  let ?st1 = "st\<lparr>gens := (gens st)(g := Suc p)\<rparr>"
  let ?F = "child_fragments (cdata self) (xs ! p)"
  let ?st2 = "?st1\<lparr>out := out ?st1 @ ?F\<rparr>"
  have nx: "iter_next (GenIter g xs en) st = (Item (xs ! p), GenIter g xs en, ?st1)"
    using Suc.prems(2) lt by simp
  have "plain (xs ! p)" using pl lt by simp
  then obtain n1 where n1: "\<And>self st m. n1 \<le> m \<Longrightarrow>
     loop_body m self (xs ! p) st = Some (yield_all (child_fragments (cdata self) (xs ! p)) st)"
    using plain_item by blast
  have y: "yield_all ?F ?st1 = (Normal, ?st2)"
    using yield_all_None [of ?st1 ?F] Suc.prems(1) by simp
  have "\<exists>n. flat_loop n self (GenIter g xs en) ?st2 =
        Some (case en of None \<Rightarrow> Normal | Some msg \<Rightarrow> Raised (UserError msg),
              ?st2\<lparr>gens := (gens ?st2)(g := Suc (length xs)),
                 out := out ?st2 @ concat (map (child_fragments (cdata self)) (drop (Suc p) xs))\<rparr>)"
    using Suc.prems by (intro Suc.IH) simp_all
  then obtain n2 where n2: "flat_loop n2 self (GenIter g xs en) ?st2 =
        Some (case en of None \<Rightarrow> Normal | Some msg \<Rightarrow> Raised (UserError msg),
              ?st2\<lparr>gens := (gens ?st2)(g := Suc (length xs)),
                 out := out ?st2 @ concat (map (child_fragments (cdata self)) (drop (Suc p) xs))\<rparr>)"
    by blast
  let ?n = "max n1 n2"
  have dr: "drop p xs = xs ! p # drop (Suc p) xs"
    using lt by (simp add: Cons_nth_drop_Suc)
  have "flat_loop (Suc ?n) self (GenIter g xs en) st =
        Some (case en of None \<Rightarrow> Normal | Some msg \<Rightarrow> Raised (UserError msg),
              ?st2\<lparr>gens := (gens ?st2)(g := Suc (length xs)),
                 out := out ?st2 @ concat (map (child_fragments (cdata self)) (drop (Suc p) xs))\<rparr>)"
    using n1 [of ?n self ?st1] y flat_loop_mono [OF _ n2, of ?n]
    by (simp add: flat_loop_Item [OF nx])
  then have "flat_loop (Suc ?n) self (GenIter g xs en) st =
        Some (case en of None \<Rightarrow> Normal | Some msg \<Rightarrow> Raised (UserError msg),
              st\<lparr>gens := (gens st)(g := Suc (length xs)),
                 out := out st @ concat (map (child_fragments (cdata self)) (drop p xs))\<rparr>)"
    by (simp add: dr)
  then show ?case by blast
qed

lemma consume_None_child:
  assumes ch: "children e = pre @ c # post"
    and pre: "\<forall>v \<in> set pre. plain v"
    and c: "loop_body n1 e c
               \<lparr>gens = gs, out = open_tag e @ concat (map (child_fragments (cdata e)) pre),
                 wanted = None\<rparr> = Some (oc, s3)"
    and oc: "oc \<noteq> Normal"
  shows "\<exists>n0. \<forall>n\<ge>n0. consume None n e gs = Some (oc, s3)"
proof -
  let ?st0 = "\<lparr>gens = gs, out = [], wanted = None\<rparr>"
  let ?H = "open_tag e @ concat (map (child_fragments (cdata e)) pre)"
  let ?s2 = "\<lparr>gens = gs, out = ?H, wanted = None\<rparr>"
  have ne: "children e \<noteq> []" using ch by simp
  have y: "yield_all ?H ?st0 = (Normal, ?s2)"
    using yield_all_None [of ?st0 ?H] by simp
  obtain s1 where y1: "yield_all (open_tag e) ?st0 = (Normal, s1)"
    and y2: "yield_all (concat (map (child_fragments (cdata e)) pre)) s1 = (Normal, ?s2)"
    by (rule yield_all_append_Normal [OF y])
  have "flat_loop (Suc n1) e (ListIter (c # post)) ?s2 = Some (oc, s3)"
    using c oc by (cases oc) (simp_all add: flat_loop_Cons)
  from flat_loop_prefix_Normal [OF pre y2 this]
  obtain n' where "flat_loop n' e (ListIter (children e)) s1 = Some (oc, s3)"
    using ch by auto
  then have r: "Element_iter (Suc (Suc n')) e ?st0 = Some (oc, s3)"
    using y1 oc by (cases oc) (simp_all add: Element_iter_children [OF ne])
  have "consume None n e gs = Some (oc, s3)" if "Suc (Suc n') \<le> n" for n
    using Element_iter_mono [OF that r] by (simp add: consume_def)
  then show ?thesis by blast
qed

lemma consume_prefix:
  assumes ch: "children e = pre @ c # post"
    and pre: "\<forall>v \<in> set pre. plain v"
    and k: "k \<le> length (open_tag e @ concat (map (child_fragments (cdata e)) pre))"
  shows "\<exists>n0. \<forall>n\<ge>n0. consume (Some k) n e gs =
      Some (Suspended, \<lparr>gens = gs,
                         out = take k (open_tag e @ concat (map (child_fragments (cdata e)) pre)),
                         wanted = Some 0\<rparr>)"
proof (cases "k = 0")
  case True
  then show ?thesis by (simp add: consume_def)
next
  case False
  let ?st0 = "\<lparr>gens = gs, out = [], wanted = Some k\<rparr>"
  let ?H = "open_tag e @ concat (map (child_fragments (cdata e)) pre)"
  let ?R = "\<lparr>gens = gs, out = take k ?H, wanted = Some 0\<rparr>"
  have ne: "children e \<noteq> []" using ch by simp
  have Hne: "?H \<noteq> []" by (simp add: open_tag_not_Nil)
  have y: "yield_all ?H ?st0 = (Suspended, ?R)"
    using yield_all_stop [of ?st0 k ?H] k Hne by simp
  obtain o1 s1 where y1: "yield_all (open_tag e) ?st0 = (o1, s1)"
    by (cases "yield_all (open_tag e) ?st0")
  have "\<exists>n. Element_iter n e ?st0 = Some (Suspended, ?R)"
  proof (cases "o1 = Normal")
    case True
    then have "yield_all (concat (map (child_fragments (cdata e)) pre)) s1 = (Suspended, ?R)"
      using y y1 by (simp add: yield_all_append)
    from flat_loop_prefix_stop [OF pre this, of "c # post"]
    obtain n' where "flat_loop n' e (ListIter (children e)) s1 = Some (Suspended, ?R)"
      using ch by auto
    then have "Element_iter (Suc (Suc n')) e ?st0 = Some (Suspended, ?R)"
      using y1 True by (simp add: Element_iter_children [OF ne])
    then show ?thesis by blast
  next
    case False
    then have "(o1, s1) = (Suspended, ?R)"
      using y y1 by (cases o1) (simp_all add: yield_all_append)
    then have "Element_iter (Suc (Suc 0)) e ?st0 = Some (Suspended, ?R)"
      using y1 by (simp add: Element_iter_children [OF ne])
    then show ?thesis by blast
  qed
  then obtain n where r: "Element_iter n e ?st0 = Some (Suspended, ?R)" by blast
  have "consume (Some k) n' e gs = Some (Suspended, ?R)" if "n \<le> n'" for n'
    using Element_iter_mono [OF that r] False by (simp add: consume_def)
  then show ?thesis by blast
qed

lemma map_nth_take:
  "m \<le> length xs \<Longrightarrow> map (\<lambda>i. h (xs ! i)) [0 ..< m] = map h (take m xs)"
  by (simp add: list_eq_iff_nth_eq)

lemma gen_fragments_list:
  "m \<le> length xs \<Longrightarrow>
     gen_fragments cd (\<lambda>i. xs ! i) 0 m = concat (map (child_fragments cd) (take m xs))"
  by (simp add: gen_fragments_def map_nth_take)

section \<open>Errors during iteration\<close>

text \<open>An empty list among the children is false, so \<open>flat_children\<close> iterates
  \<open>self.children\<close> in its place, meets the empty list again, and so on: \<open>list\<close>
  never returns a result (in Python the recursion limit ends it with a
  \<open>RecursionError\<close>).\<close>

lemma empty_list_child_loops:
  "flat_children n (Element t [PList []] as) (PList []) st = None \<and>
   flat_loop n (Element t [PList []] as) (ListIter [PList []]) st = None"
proof (induction n arbitrary: st)
  case 0
  show ?case by simp
next
  case (Suc n)
  show ?case using Suc.IH by (simp add: flat_children.simps(2) flat_loop.simps(2))
qed

lemma empty_list_child_never_returns:
  "Element_list n (Element t [PList []] as) gs = None"
proof (cases n)
  case 0
  then show ?thesis by (simp add: Element_list_def consume_def)
next
  case (Suc m)
  have "flat_children m (Element t [PList []] as) PNone st = None" for st
  proof (cases m)
    case 0
    then show ?thesis by simp
  next
    case (Suc j)
    then show ?thesis using empty_list_child_loops [of j t as st]
      by (simp add: flat_children.simps(2))
  qed
  then show ?thesis using Suc
    by (simp add: Element_list_def consume_def Element_iter.simps(2) yield_None yield_all_None)
qed

text \<open>
  C3. The claim: iterating a successfully constructed Element raises no error, every
  child value that is not a mapping or \<open>None\<close> and can be converted to a string being
  accepted and emitted as text. \<open>flat_children\<close> converts nothing: a child that is
  neither a \<open>str\<close>, a \<open>RawString\<close> nor \<open>None\<close> is iterated. For
  \<open>Tag("p")("a", 5)\<close> construction succeeds and iteration yields \<open><p\<close>,
  \<open>>\<close>, \<open>a\<close> and then raises \<open>TypeError\<close>, since an \<open>int\<close> is not
  iterable.
\<close>

theorem int_child_raises:
  "Tag_call \<lparr>name = ''p'', options = []\<rparr> [PStr ''a'', PInt 5] [] =
     Inr (Element \<lparr>name = ''p'', options = []\<rparr> [PStr ''a'', PInt 5] []) \<and>
   consume None (Suc (Suc (Suc (Suc (Suc 0)))))
     (Element \<lparr>name = ''p'', options = []\<rparr> [PStr ''a'', PInt 5] []) (\<lambda>g. 0) =
     Some (Raised (TypeError '''int' object is not iterable''),
           \<lparr>gens = \<lambda>g. 0, out = [''<p'', ''>'', ''a''], wanted = None\<rparr>)"
  by (simp add: Tag_call_def Element_init_def dict_of_pairs_def dict_update_def consume_def
      Element_iter.simps(2) flat_children.simps(2) flat_loop.simps(2) emit_child.simps(2)
      yield_None option_get_def cgi_escape_def str_replace_def)

text \<open>
  C3, as amended. Iterating an Element whose children are plain (strings, RawStrings,
  Elements with plain children, \<open>None\<close>, lists and dicts that are not empty) raises no
  error. A non-zero \<open>int\<close> child is not converted to text: it raises
  \<open>TypeError\<close> when flattening reaches it, after the fragments of the children before
  it. An exception raised by a child generator after it has yielded plain values surfaces
  unchanged, after the fragments of the children before it and of the values it yielded,
  with the generator run exactly to its end; a consumer that stops within the fragments
  before the generator sees no error, and the generator has not run at all.
\<close>

theorem iteration_errors:
  "(plain_element e \<longrightarrow>
      (\<exists>n0. \<forall>n\<ge>n0. \<forall>gs. consume None n e gs =
          Some (Normal, \<lparr>gens = gs, out = fragments e, wanted = None\<rparr>)))
   \<and> (children e = pre @ PInt i # post \<and> i \<noteq> 0 \<and> (\<forall>v \<in> set pre. plain v) \<longrightarrow>
      (\<exists>n0. \<forall>n\<ge>n0. consume None n e gs =
          Some (Raised (TypeError '''int' object is not iterable''),
                \<lparr>gens = gs,
                  out = open_tag e @ concat (map (child_fragments (cdata e)) pre),
                  wanted = None\<rparr>)))
   \<and> (children e = pre @ PGen g xs (Some msg) # post \<and> (\<forall>v \<in> set pre. plain v) \<and>
        (\<forall>x \<in> set xs. plain x) \<and> gs g = 0 \<longrightarrow>
      (\<exists>n0. \<forall>n\<ge>n0. consume None n e gs =
          Some (Raised (UserError msg),
                \<lparr>gens = gs(g := Suc (length xs)),
                  out = open_tag e @ concat (map (child_fragments (cdata e)) pre)
                          @ concat (map (child_fragments (cdata e)) xs),
                  wanted = None\<rparr>)) \<and>
      (\<forall>k \<le> length (open_tag e @ concat (map (child_fragments (cdata e)) pre)).
         \<exists>n0. \<forall>n\<ge>n0. consume (Some k) n e gs =
          Some (Suspended,
                \<lparr>gens = gs,
                  out = take k (open_tag e @ concat (map (child_fragments (cdata e)) pre)),
                  wanted = Some 0\<rparr>)))"
proof (intro conjI impI)
  assume p: "plain_element e"
  obtain n0 where n0: "\<forall>n\<ge>n0. \<forall>st. Element_iter n e st = Some (yield_all (fragments e) st)"
    using plain_element_iter [OF p] by blast
  have "consume None n e gs = Some (Normal, \<lparr>gens = gs, out = fragments e, wanted = None\<rparr>)"
    if "n0 \<le> n" for n gs
  proof -
    have "\<forall>st. Element_iter n e st = Some (yield_all (fragments e) st)" using n0 that by blast
    from consume_plain [OF this, of None gs] show ?thesis by (simp add: yield_all_None)
  qed
  then show "\<exists>n0. \<forall>n\<ge>n0. \<forall>gs. consume None n e gs =
          Some (Normal, \<lparr>gens = gs, out = fragments e, wanted = None\<rparr>)"
    by blast
next
  assume a: "children e = pre @ PInt i # post \<and> i \<noteq> 0 \<and> (\<forall>v \<in> set pre. plain v)"
  let ?H = "open_tag e @ concat (map (child_fragments (cdata e)) pre)"
  let ?err = "Raised (TypeError '''int' object is not iterable'')"
  have ch: "children e = pre @ PInt i # post" and pre: "\<forall>v \<in> set pre. plain v"
    using a by simp_all
  have "loop_body (Suc 0) e (PInt i) \<lparr>gens = gs, out = ?H, wanted = None\<rparr> =
        Some (?err, \<lparr>gens = gs, out = ?H, wanted = None\<rparr>)"
    using a by (simp add: loop_body_def flat_children.simps(2))
  from consume_None_child [OF ch pre this]
  show "\<exists>n0. \<forall>n\<ge>n0. consume None n e gs =
          Some (?err, \<lparr>gens = gs, out = ?H, wanted = None\<rparr>)"
    by simp
next
  assume a: "children e = pre @ PGen g xs (Some msg) # post \<and> (\<forall>v \<in> set pre. plain v) \<and>
        (\<forall>x \<in> set xs. plain x) \<and> gs g = 0"
  let ?H = "open_tag e @ concat (map (child_fragments (cdata e)) pre)"
  let ?s2 = "\<lparr>gens = gs, out = ?H, wanted = None\<rparr>"
  have ch: "children e = pre @ PGen g xs (Some msg) # post" and pre: "\<forall>v \<in> set pre. plain v"
    using a by simp_all
  have "\<exists>n. flat_loop n e (GenIter g xs (Some msg)) ?s2 =
        Some (case Some msg of None \<Rightarrow> Normal | Some msg \<Rightarrow> Raised (UserError msg),
              ?s2\<lparr>gens := (gens ?s2)(g := Suc (length xs)),
                 out := out ?s2 @ concat (map (child_fragments (cdata e)) (drop 0 xs))\<rparr>)"
    using a by (intro flat_loop_Gen_None [where p = 0 and d = "length xs"]) simp_all
  then obtain n where "flat_loop n e (GenIter g xs (Some msg)) ?s2 =
        Some (Raised (UserError msg),
              \<lparr>gens = gs(g := Suc (length xs)),
                out = ?H @ concat (map (child_fragments (cdata e)) xs), wanted = None\<rparr>)"
    by auto
  then have "loop_body (Suc n) e (PGen g xs (Some msg)) ?s2 =
        Some (Raised (UserError msg),
              \<lparr>gens = gs(g := Suc (length xs)),
                out = ?H @ concat (map (child_fragments (cdata e)) xs), wanted = None\<rparr>)"
    by (simp add: loop_body_def flat_children.simps(2))
  from consume_None_child [OF ch pre this]
  show "\<exists>n0. \<forall>n\<ge>n0. consume None n e gs =
          Some (Raised (UserError msg),
                \<lparr>gens = gs(g := Suc (length xs)),
                  out = open_tag e @ concat (map (child_fragments (cdata e)) pre)
                          @ concat (map (child_fragments (cdata e)) xs),
                  wanted = None\<rparr>)"
    by simp
  show "\<forall>k \<le> length ?H.
         \<exists>n0. \<forall>n\<ge>n0. consume (Some k) n e gs =
          Some (Suspended, \<lparr>gens = gs, out = take k ?H, wanted = Some 0\<rparr>)"
    using consume_prefix [OF ch pre] by blast
qed

theorem iteration_errors_witness:
  "(\<exists>n0. \<forall>n\<ge>n0. consume None n (Element \<lparr>name = ''p'', options = []\<rparr> [PStr ''a'', PInt 5] []) (\<lambda>g. 0) =
       Some (Raised (TypeError '''int' object is not iterable''),
             \<lparr>gens = \<lambda>g. 0, out = [''<p'', ''>'', ''a''], wanted = None\<rparr>)) \<and>
   (\<exists>n0. \<forall>n\<ge>n0. consume None n
       (Element \<lparr>name = ''p'', options = []\<rparr> [PGen 0 [PStr ''x''] (Some ''boom'')] []) (\<lambda>g. 0) =
       Some (Raised (UserError ''boom''),
             \<lparr>gens = (\<lambda>g. 0)(0 := Suc (Suc 0)), out = [''<p'', ''>'', ''x''], wanted = None\<rparr>))"
  using iteration_errors [where e = "Element \<lparr>name = ''p'', options = []\<rparr> [PStr ''a'', PInt 5] []"
      and pre = "[PStr ''a'']" and i = 5 and post = "[]" and gs = "\<lambda>g. 0"]
    iteration_errors [where e = "Element \<lparr>name = ''p'', options = []\<rparr> [PGen 0 [PStr ''x''] (Some ''boom'')] []"
      and pre = "[]" and post = "[]" and g = 0 and xs = "[PStr ''x'']" and msg = "''boom''"
      and gs = "\<lambda>g. 0"]
  by (simp add: open_tag_def option_get_def text_fragments_def cgi_escape_def str_replace_def)

lemma iter_next_GenIter:
  "gens st g < length xs \<Longrightarrow>
     iter_next (GenIter g xs en) st =
       (Item (xs ! gens st g), GenIter g xs en, st\<lparr>gens := (gens st)(g := Suc (gens st g))\<rparr>)"
  by (simp add: Let_def)

lemma iter_next_GenInfIter:
  "iter_next (GenInfIter g f) st =
       (Item (f (gens st g)), GenInfIter g f, st\<lparr>gens := (gens st)(g := Suc (gens st g))\<rparr>)"
  by (simp add: Let_def)

section \<open>Laziness\<close>

text \<open>
  C6. Let the children of an Element be plain values, then a generator whose values are
  plain and give at least one fragment each, then anything. Let \<open>H\<close> be the fragments
  before the generator is first resumed. A consumer that asks for \<open>k\<close> fragments and
  stops gets exactly the first \<open>k\<close> fragments, within finitely many steps, and the
  generator has then been resumed exactly \<open>m\<close> times, where \<open>m\<close> is the least
  number of its values whose fragments, after \<open>H\<close>, make up \<open>k\<close>: not at all
  when \<open>k\<close> is at most the length of \<open>H\<close>, and otherwise its \<open>m\<close>-th value
  was needed for the \<open>k\<close>-th fragment (\<open>m - 1\<close> values give fewer than \<open>k\<close>
  fragments). So each resumption, with the side effects of the generator's code up to its
  next \<open>yield\<close>, happens once, in order, when the first fragment of the value it
  yields is asked for. This holds for a generator that never returns, for every \<open>k\<close>,
  and for a generator object not yet started that yields the values \<open>xs\<close>, for every
  \<open>k\<close> up to the fragments of its last value.
\<close>

theorem lazy_iteration:
  "let H = open_tag e @ concat (map (child_fragments (cdata e)) pre) in
   (children e = pre @ PGenInf g f # post \<and> (\<forall>v \<in> set pre. plain v) \<and>
      (\<forall>i. plain (f i) \<and> child_fragments (cdata e) (f i) \<noteq> []) \<longrightarrow>
      (\<exists>n0 m. (\<forall>n\<ge>n0. consume (Some k) n e gs =
                  Some (Suspended,
                        \<lparr>gens = gs(g := gs g + m),
                          out = take k (H @ gen_fragments (cdata e) f (gs g) m),
                          wanted = Some 0\<rparr>))
         \<and> m \<le> k
         \<and> (k \<le> length H \<longrightarrow> m = 0)
         \<and> (length H < k \<longrightarrow> 0 < m
               \<and> length H + length (gen_fragments (cdata e) f (gs g) (m - 1)) < k
               \<and> k \<le> length H + length (gen_fragments (cdata e) f (gs g) m))))
   \<and> (children e = pre @ PGen g xs en # post \<and> (\<forall>v \<in> set pre. plain v) \<and>
      (\<forall>x \<in> set xs. plain x \<and> child_fragments (cdata e) x \<noteq> []) \<and> gs g = 0 \<and>
      k \<le> length H + length (concat (map (child_fragments (cdata e)) xs)) \<longrightarrow>
      (\<exists>n0 m. (\<forall>n\<ge>n0. consume (Some k) n e gs =
                  Some (Suspended,
                        \<lparr>gens = gs(g := m),
                          out = take k (H @ concat (map (child_fragments (cdata e)) (take m xs))),
                          wanted = Some 0\<rparr>))
         \<and> m \<le> length xs
         \<and> (k \<le> length H \<longrightarrow> m = 0)
         \<and> (length H < k \<longrightarrow> 0 < m
               \<and> length H + length (concat (map (child_fragments (cdata e)) (take (m - 1) xs))) < k
               \<and> k \<le> length H + length (concat (map (child_fragments (cdata e)) (take m xs))))))"
proof -
  let ?cd = "cdata e"
  let ?H = "open_tag e @ concat (map (child_fragments ?cd) pre)"
  have inf: "\<exists>n0 m. (\<forall>n\<ge>n0. consume (Some k) n e gs =
                  Some (Suspended,
                        \<lparr>gens = gs(g := gs g + m),
                          out = take k (?H @ gen_fragments ?cd f (gs g) m),
                          wanted = Some 0\<rparr>))
         \<and> m \<le> k
         \<and> (k \<le> length ?H \<longrightarrow> m = 0)
         \<and> (length ?H < k \<longrightarrow> 0 < m
               \<and> length ?H + length (gen_fragments ?cd f (gs g) (m - 1)) < k
               \<and> k \<le> length ?H + length (gen_fragments ?cd f (gs g) m))"
    if a: "children e = pre @ PGenInf g f # post \<and> (\<forall>v \<in> set pre. plain v) \<and>
      (\<forall>i. plain (f i) \<and> child_fragments ?cd (f i) \<noteq> [])"
  proof -
    have ch: "children e = pre @ PGenInf g f # post" and pre: "\<forall>v \<in> set pre. plain v"
      and items: "\<And>i. i < gs g + k \<Longrightarrow> plain (f i) \<and> child_fragments ?cd (f i) \<noteq> []"
      and prod: "\<And>i. child_fragments ?cd (f i) \<noteq> []"
      using a by simp_all
    have "k \<le> length (gen_fragments ?cd f (gs g) k)"
      using length_gen_fragments [of ?cd f k "gs g"] prod by blast
    then have avail: "k \<le> length ?H + length (gen_fragments ?cd f (gs g) (gs g + k - gs g))"
      by simp
    have "\<exists>n0 m. (\<forall>n\<ge>n0. consume (Some k) n e gs =
            Some (Suspended, \<lparr>gens = gs(g := gs g + m),
                               out = take k (?H @ gen_fragments ?cd f (gs g) m),
                               wanted = Some 0\<rparr>))
          \<and> gs g + m \<le> max (gs g + k) (gs g)
          \<and> (k \<le> length ?H \<longrightarrow> m = 0)
          \<and> (length ?H < k \<longrightarrow> 0 < m
                \<and> length ?H + length (gen_fragments ?cd f (gs g) (m - 1)) < k
                \<and> k \<le> length ?H + length (gen_fragments ?cd f (gs g) m))"
      by (rule lazy_generator_child [where c = "PGenInf g f" and it = "GenInfIter g f"
            and g = g and f = f and N = "gs g + k" and post = post])
        (use ch pre items avail in \<open>simp_all add: iter_next_GenInfIter del: iter_next.simps\<close>)
    then obtain n0 m where r: "\<forall>n\<ge>n0. consume (Some k) n e gs =
            Some (Suspended, \<lparr>gens = gs(g := gs g + m),
                               out = take k (?H @ gen_fragments ?cd f (gs g) m),
                               wanted = Some 0\<rparr>)"
      "gs g + m \<le> max (gs g + k) (gs g)"
      "k \<le> length ?H \<longrightarrow> m = 0"
      "length ?H < k \<longrightarrow> 0 < m
                \<and> length ?H + length (gen_fragments ?cd f (gs g) (m - 1)) < k
                \<and> k \<le> length ?H + length (gen_fragments ?cd f (gs g) m)"
      by (elim exE conjE)
    have "m \<le> k" using r(2) by simp
    then show ?thesis using r(1,3,4)
      by (rule_tac x = n0 in exI, rule_tac x = m in exI) (intro conjI)
  qed
  have fin: "\<exists>n0 m. (\<forall>n\<ge>n0. consume (Some k) n e gs =
                  Some (Suspended,
                        \<lparr>gens = gs(g := m),
                          out = take k (?H @ concat (map (child_fragments ?cd) (take m xs))),
                          wanted = Some 0\<rparr>))
         \<and> m \<le> length xs
         \<and> (k \<le> length ?H \<longrightarrow> m = 0)
         \<and> (length ?H < k \<longrightarrow> 0 < m
               \<and> length ?H + length (concat (map (child_fragments ?cd) (take (m - 1) xs))) < k
               \<and> k \<le> length ?H + length (concat (map (child_fragments ?cd) (take m xs))))"
    if a: "children e = pre @ PGen g xs en # post \<and> (\<forall>v \<in> set pre. plain v) \<and>
      (\<forall>x \<in> set xs. plain x \<and> child_fragments ?cd x \<noteq> []) \<and> gs g = 0 \<and>
      k \<le> length ?H + length (concat (map (child_fragments ?cd) xs))"
  proof -
    let ?f = "\<lambda>i. xs ! i"
    have ch: "children e = pre @ PGen g xs en # post" and pre: "\<forall>v \<in> set pre. plain v"
      and g0: "gs g = 0"
      and items: "\<And>i. i < length xs \<Longrightarrow> plain (?f i) \<and> child_fragments ?cd (?f i) \<noteq> []"
      using a by simp_all
    have avail: "k \<le> length ?H + length (gen_fragments ?cd ?f (gs g) (length xs - gs g))"
      using a by (simp add: g0 gen_fragments_list)
    have "\<exists>n0 m. (\<forall>n\<ge>n0. consume (Some k) n e gs =
            Some (Suspended, \<lparr>gens = gs(g := gs g + m),
                               out = take k (?H @ gen_fragments ?cd ?f (gs g) m),
                               wanted = Some 0\<rparr>))
          \<and> gs g + m \<le> max (length xs) (gs g)
          \<and> (k \<le> length ?H \<longrightarrow> m = 0)
          \<and> (length ?H < k \<longrightarrow> 0 < m
                \<and> length ?H + length (gen_fragments ?cd ?f (gs g) (m - 1)) < k
                \<and> k \<le> length ?H + length (gen_fragments ?cd ?f (gs g) m))"
      by (rule lazy_generator_child [where c = "PGen g xs en" and it = "GenIter g xs en"
            and g = g and f = ?f and N = "length xs" and post = post])
        (use ch pre items avail in \<open>simp_all add: iter_next_GenIter del: iter_next.simps\<close>)
    then obtain n0 m where r: "\<forall>n\<ge>n0. consume (Some k) n e gs =
            Some (Suspended, \<lparr>gens = gs(g := gs g + m),
                               out = take k (?H @ gen_fragments ?cd ?f (gs g) m),
                               wanted = Some 0\<rparr>)"
      "gs g + m \<le> max (length xs) (gs g)"
      "k \<le> length ?H \<longrightarrow> m = 0"
      "length ?H < k \<longrightarrow> 0 < m
                \<and> length ?H + length (gen_fragments ?cd ?f (gs g) (m - 1)) < k
                \<and> k \<le> length ?H + length (gen_fragments ?cd ?f (gs g) m)"
      by (elim exE conjE)
    have m: "m \<le> length xs" "m - Suc 0 \<le> length xs" using r(2) g0 by simp_all
    have 1: "\<forall>n\<ge>n0. consume (Some k) n e gs =
                  Some (Suspended,
                        \<lparr>gens = gs(g := m),
                          out = take k (?H @ concat (map (child_fragments ?cd) (take m xs))),
                          wanted = Some 0\<rparr>)"
      using r(1) by (simp add: g0 gen_fragments_list [OF m(1)])
    have 2: "length ?H < k \<longrightarrow> 0 < m
               \<and> length ?H + length (concat (map (child_fragments ?cd) (take (m - 1) xs))) < k
               \<and> k \<le> length ?H + length (concat (map (child_fragments ?cd) (take m xs)))"
      using r(4) by (simp add: g0 gen_fragments_list [OF m(1)] gen_fragments_list [OF m(2)])
    show ?thesis using 1 m(1) r(3) 2
      by (rule_tac x = n0 in exI, rule_tac x = m in exI) (intro conjI)
  qed
  show ?thesis unfolding Let_def using inf fin by (intro conjI impI)
qed

lemma gen_fragments_const:
  "length (gen_fragments False (\<lambda>i. PStr s) p m) = m"
  by (induction m arbitrary: p) (simp_all add: gen_fragments_Suc text_fragments_def)

theorem lazy_iteration_witness:
  "(\<exists>n0. \<forall>n\<ge>n0.
      consume (Some 4) n
        (Element \<lparr>name = ''p'', options = []\<rparr> [PGenInf 0 (\<lambda>i. PStr ''x'')] []) (\<lambda>g. 0) =
      Some (Suspended,
            \<lparr>gens = (\<lambda>g. 0)(0 := 2), out = [''<p'', ''>'', ''x'', ''x''], wanted = Some 0\<rparr>))
   \<and> (\<exists>n0. \<forall>n\<ge>n0.
      consume (Some 3) n
        (Element \<lparr>name = ''p'', options = []\<rparr> [PGen 0 [PStr ''a'', PStr ''b'', PStr ''c''] None] [])
        (\<lambda>g. 0) =
      Some (Suspended,
            \<lparr>gens = (\<lambda>g. 0)(0 := 1), out = [''<p'', ''>'', ''a''], wanted = Some 0\<rparr>))"
proof
  let ?e = "Element \<lparr>name = ''p'', options = []\<rparr> [PGenInf 0 (\<lambda>i. PStr ''x'')] []"
  let ?f = "\<lambda>i::nat. PStr ''x''"
  from lazy_iteration [where e = ?e and pre = "[]" and g = 0 and f = ?f and post = "[]"
      and k = 4 and gs = "\<lambda>g. 0"]
  have "\<exists>n0 m. (\<forall>n\<ge>n0. consume (Some 4) n ?e (\<lambda>g. 0) =
          Some (Suspended,
            \<lparr>gens = (\<lambda>g. 0)(0 := m), out = take 4 ([''<p'', ''>''] @ gen_fragments False ?f 0 m),
              wanted = Some 0\<rparr>))
        \<and> m \<le> 4 \<and> 0 < m \<and> 2 + (m - 1) < 4 \<and> 4 \<le> 2 + m"
    by (simp add: Let_def open_tag_def option_get_def text_fragments_def gen_fragments_const)
  then obtain n0 m where r: "\<forall>n\<ge>n0. consume (Some 4) n ?e (\<lambda>g. 0) =
          Some (Suspended,
            \<lparr>gens = (\<lambda>g. 0)(0 := m), out = take 4 ([''<p'', ''>''] @ gen_fragments False ?f 0 m),
              wanted = Some 0\<rparr>)"
    and m: "m \<le> 4" "0 < m" "2 + (m - 1) < 4" "4 \<le> 2 + m"
    by (elim exE conjE)
  have m2: "m = 2" using m by arith
  have "gen_fragments False ?f 0 2 = [''x'', ''x'']"
    by (simp add: gen_fragments_def text_fragments_def cgi_escape_def str_replace_def
        upt_rec [of 0] upt_rec [of 1])
  then show "\<exists>n0. \<forall>n\<ge>n0. consume (Some 4) n ?e (\<lambda>g. 0) =
      Some (Suspended,
            \<lparr>gens = (\<lambda>g. 0)(0 := 2), out = [''<p'', ''>'', ''x'', ''x''], wanted = Some 0\<rparr>)"
    using r m2 by auto
next
  let ?xs = "[PStr ''a'', PStr ''b'', PStr ''c'']"
  let ?e = "Element \<lparr>name = ''p'', options = []\<rparr> [PGen 0 ?xs None] []"
  let ?cf = "child_fragments False"
  from lazy_iteration [where e = ?e and pre = "[]" and g = 0 and xs = ?xs and en = None
      and post = "[]" and k = 3 and gs = "\<lambda>g. 0"]
  have "\<exists>n0 m. (\<forall>n\<ge>n0. consume (Some 3) n ?e (\<lambda>g. 0) =
          Some (Suspended,
            \<lparr>gens = (\<lambda>g. 0)(0 := m), out = take 3 ([''<p'', ''>''] @ concat (map ?cf (take m ?xs))),
              wanted = Some 0\<rparr>))
        \<and> m \<le> length ?xs \<and> 0 < m \<and> 2 + length (concat (map ?cf (take (m - 1) ?xs))) < 3
        \<and> 3 \<le> 2 + length (concat (map ?cf (take m ?xs)))"
    by (simp add: Let_def open_tag_def option_get_def text_fragments_def)
  then obtain n0 m where r: "\<forall>n\<ge>n0. consume (Some 3) n ?e (\<lambda>g. 0) =
          Some (Suspended,
            \<lparr>gens = (\<lambda>g. 0)(0 := m), out = take 3 ([''<p'', ''>''] @ concat (map ?cf (take m ?xs))),
              wanted = Some 0\<rparr>)"
    and m: "m \<le> length ?xs" "0 < m" "2 + length (concat (map ?cf (take (m - 1) ?xs))) < 3"
      "3 \<le> 2 + length (concat (map ?cf (take m ?xs)))"
    by (elim exE conjE)
  consider "m = Suc 0" | "m = Suc (Suc 0)" | "m = Suc (Suc (Suc 0))"
    using m(1,2) by (simp add: le_Suc_eq) arith
  then have m1: "m = Suc 0"
  proof cases
    case 1
    then show ?thesis .
  next
    case 2
    then show ?thesis using m(3) by (simp add: text_fragments_def)
  next
    case 3
    then show ?thesis using m(3) by (simp add: text_fragments_def)
  qed
  show "\<exists>n0. \<forall>n\<ge>n0. consume (Some 3) n ?e (\<lambda>g. 0) =
      Some (Suspended,
            \<lparr>gens = (\<lambda>g. 0)(0 := 1), out = [''<p'', ''>'', ''a''], wanted = Some 0\<rparr>)"
    using r m1 by (auto simp: text_fragments_def cgi_escape_def str_replace_def)
qed

section \<open>Flattening\<close>





end
